theory Spec2Isabelle
  imports Complex_Main "HOL-Library.Log_Nat" "HOL-Library.Multiset" "HOL-Library.Product_Lexorder"
begin

section \<open>Python strings\<close>

text \<open>
  A Python \<open>str\<close> is modelled as a \<open>string\<close> whose characters are the code points
  0 to 255 (Latin-1). On this range \<open>str.lower\<close> keeps the length of a string, and
  \<open>str.isspace\<close> holds for the code points 9-13, 28-32, 133 and 160.
\<close>

definition py_isspace :: "char \<Rightarrow> bool" where
  "py_isspace c =
     (let n = (of_char c :: nat)
      in (9 \<le> n \<and> n \<le> 13) \<or> (28 \<le> n \<and> n \<le> 32) \<or> n = 133 \<or> n = 160)"

definition lower_char :: "char \<Rightarrow> char" where
  "lower_char c =
     (let n = (of_char c :: nat)
      in if (65 \<le> n \<and> n \<le> 90) \<or> (192 \<le> n \<and> n \<le> 222 \<and> n \<noteq> 215)
         then char_of (n + 32) else c)"

definition py_lower :: "string \<Rightarrow> string" where
  "py_lower s = map lower_char s"

text \<open>
  The specification's \<open>normalize\<close>: lower-casing when the search ignores case, the
  identity otherwise.
\<close>

definition normalize :: "bool \<Rightarrow> string \<Rightarrow> string" where
  "normalize ignore_case s = (if ignore_case then py_lower s else s)"

definition py_strip :: "string \<Rightarrow> string" where
  "py_strip s = rev (dropWhile py_isspace (rev (dropWhile py_isspace s)))"

text \<open>\<open>s.split()\<close>: the maximal runs of non-whitespace characters, in order.\<close>

fun split_ws :: "string \<Rightarrow> string \<Rightarrow> string list" where
  "split_ws cur [] = (if cur = [] then [] else [cur])"
| "split_ws cur (c # cs) =
     (if py_isspace c then (if cur = [] then split_ws [] cs else cur # split_ws [] cs)
      else split_ws (cur @ [c]) cs)"

definition py_split :: "string \<Rightarrow> string list" where
  "py_split s = split_ws [] s"

text \<open>\<open>sub in s\<close>: \<open>sub\<close> occurs in \<open>s\<close> as a contiguous substring.\<close>

fun starts_with :: "string \<Rightarrow> string \<Rightarrow> bool" where
  "starts_with s [] = True"
| "starts_with [] (p # ps) = False"
| "starts_with (c # cs) (p # ps) = (c = p \<and> starts_with cs ps)"

fun py_in :: "string \<Rightarrow> string \<Rightarrow> bool" where
  "py_in sub [] = (sub = [])"
| "py_in sub (c # cs) = (starts_with (c # cs) sub \<or> py_in sub cs)"

text \<open>\<open>str(n)\<close> for an integer: its decimal digits, with a minus sign when negative.\<close>

fun str_nat :: "nat \<Rightarrow> string" where
  "str_nat n = (if n < 10 then [char_of (48 + n)] else str_nat (n div 10) @ [char_of (48 + n mod 10)])"

definition str_int :: "int \<Rightarrow> string" where
  "str_int i = (if i < 0 then CHR ''-'' # str_nat (nat (- i)) else str_nat (nat i))"

section \<open>Python floats\<close>

text \<open>
  A Python \<open>float\<close> is an IEEE 754 binary64 number. The finite ones are rationals, and
  every arithmetic operation returns the exact result rounded to the nearest binary64
  number, ties to the even significand: \<open>fl\<close>. \<open>ilog2 x\<close> is the binary exponent of a
  positive \<open>x\<close>, \<open>fexp x\<close> the exponent its significand is scaled by: below
  \<open>2 powi - 1022\<close> the spacing is that of the subnormal numbers. Overflow is left out:
  no value computed here exceeds a hundred times the length of a string.
\<close>

definition ilog2 :: "rat \<Rightarrow> int" where
  "ilog2 x = (let (p, q) = quotient_of x; d = bitlen p - bitlen q
              in if 2 powi d \<le> x then d else d - 1)"

definition round_half_even :: "rat \<Rightarrow> int" where
  "round_half_even x =
     (let f = \<lfloor>x\<rfloor>; d = x - of_int f
      in if d < 1 / 2 then f else if 1 / 2 < d then f + 1
         else if even f then f else f + 1)"

definition fexp :: "rat \<Rightarrow> int" where
  "fexp x = max (ilog2 x) (- 1022)"

definition fl :: "rat \<Rightarrow> rat" where
  "fl x = (if x = 0 then 0
           else let u = 2 powi (fexp \<bar>x\<bar> - 52)
                in sgn x * of_int (round_half_even (\<bar>x\<bar> / u)) * u)"

text \<open>\<open>float(n)\<close>, \<open>x * y\<close>, \<open>x / y\<close> on floats, \<open>m / n\<close> on integers, \<open>int(x)\<close>.\<close>

definition float_of_int :: "int \<Rightarrow> rat" where
  "float_of_int n = fl (of_int n)"

definition fmul :: "rat \<Rightarrow> rat \<Rightarrow> rat" where
  "fmul x y = fl (x * y)"

definition fdiv :: "rat \<Rightarrow> rat \<Rightarrow> rat" where
  "fdiv x y = fl (x / y)"

definition int_truediv :: "int \<Rightarrow> int \<Rightarrow> rat" where
  "int_truediv m n = fl (of_int m / of_int n)"

definition py_int :: "rat \<Rightarrow> int" where
  "py_int x = (if 0 \<le> x then \<lfloor>x\<rfloor> else \<lceil>x\<rceil>)"

section \<open>difflib.SequenceMatcher\<close>

text \<open>
  The standard library's \<open>SequenceMatcher(None, a, b)\<close>, as the program calls it:
  no junk predicate, \<open>autojunk\<close> left at its default \<open>True\<close>.
\<close>

text \<open>
  \<open>__chain_b\<close>: \<open>b2j\<close> maps each element of \<open>b\<close> to the ascending list of its
  positions; when \<open>b\<close> has 200 elements or more, the elements that occur more than
  \<open>len(b) // 100 + 1\<close> times are deleted from it.
\<close>

definition b2j_add :: "(char \<rightharpoonup> nat list) \<Rightarrow> nat \<times> char \<Rightarrow> (char \<rightharpoonup> nat list)" where
  "b2j_add m p = (case p of (i, elt) \<Rightarrow>
     m(elt \<mapsto> (case m elt of None \<Rightarrow> [] | Some idxs \<Rightarrow> idxs) @ [i]))"

definition chain_b :: "string \<Rightarrow> (char \<rightharpoonup> nat list)" where
  "chain_b b =
     (let b2j = foldl b2j_add Map.empty (enumerate 0 b); n = length b
      in if n \<ge> 200
         then (let ntest = n div 100 + 1
               in (\<lambda>elt. case b2j elt of None \<Rightarrow> None
                         | Some idxs \<Rightarrow> if length idxs > ntest then None else Some idxs))
         else b2j)"

text \<open>\<open>bjunk\<close> is the empty set, since \<open>isjunk\<close> is \<open>None\<close>.\<close>

definition isbjunk :: "char \<Rightarrow> bool" where
  "isbjunk c = False"

text \<open>
  \<open>find_longest_match\<close>. The inner loop runs over the positions \<open>j\<close> of \<open>a[i]\<close> in
  \<open>b\<close>; \<open>j2len\<close> holds, for the previous \<open>i\<close>, the length of the match ending at
  each \<open>j\<close>. The best block is kept as \<open>(besti, bestj, bestsize)\<close>.
\<close>

fun flm_inner :: "(nat \<rightharpoonup> nat) \<Rightarrow> nat \<Rightarrow> nat \<Rightarrow> nat \<Rightarrow> nat list
    \<Rightarrow> (nat \<rightharpoonup> nat) \<times> nat \<times> nat \<times> nat \<Rightarrow> (nat \<rightharpoonup> nat) \<times> nat \<times> nat \<times> nat" where
  "flm_inner j2len i blo bhi [] st = st"
| "flm_inner j2len i blo bhi (j # js) (newj2len, besti, bestj, bestsize) =
     (if j < blo then flm_inner j2len i blo bhi js (newj2len, besti, bestj, bestsize)
      else if j \<ge> bhi then (newj2len, besti, bestj, bestsize)
      else
        let k = (if j = 0 then 0 else case j2len (j - 1) of None \<Rightarrow> 0 | Some l \<Rightarrow> l) + 1
        in flm_inner j2len i blo bhi js
             (if k > bestsize then (newj2len(j \<mapsto> k), i + 1 - k, j + 1 - k, k)
              else (newj2len(j \<mapsto> k), besti, bestj, bestsize)))"

fun flm_outer :: "string \<Rightarrow> (char \<rightharpoonup> nat list) \<Rightarrow> nat \<Rightarrow> nat \<Rightarrow> nat list
    \<Rightarrow> (nat \<rightharpoonup> nat) \<times> nat \<times> nat \<times> nat \<Rightarrow> (nat \<rightharpoonup> nat) \<times> nat \<times> nat \<times> nat" where
  "flm_outer a b2j blo bhi [] st = st"
| "flm_outer a b2j blo bhi (i # is) (j2len, besti, bestj, bestsize) =
     flm_outer a b2j blo bhi is
       (flm_inner j2len i blo bhi (case b2j (a ! i) of None \<Rightarrow> [] | Some idxs \<Rightarrow> idxs)
          (Map.empty, besti, bestj, bestsize))"

text \<open>
  The four extension loops: first over elements that are not junk, then over junk
  elements, each to the left and to the right of the block found.
\<close>

function extend_left :: "(char \<Rightarrow> bool) \<Rightarrow> string \<Rightarrow> string \<Rightarrow> nat \<Rightarrow> nat
    \<Rightarrow> nat \<times> nat \<times> nat \<Rightarrow> nat \<times> nat \<times> nat" where
  "extend_left ok a b alo blo (besti, bestj, bestsize) =
     (if besti > alo \<and> bestj > blo \<and> ok (b ! (bestj - 1)) \<and> a ! (besti - 1) = b ! (bestj - 1)
      then extend_left ok a b alo blo (besti - 1, bestj - 1, bestsize + 1)
      else (besti, bestj, bestsize))"
  by pat_completeness auto

termination
  by (relation "measure (\<lambda>(ok, a, b, alo, blo, besti, bestj, bestsize). besti)") auto

declare extend_left.simps [simp del]

function extend_right :: "(char \<Rightarrow> bool) \<Rightarrow> string \<Rightarrow> string \<Rightarrow> nat \<Rightarrow> nat
    \<Rightarrow> nat \<times> nat \<times> nat \<Rightarrow> nat \<times> nat \<times> nat" where
  "extend_right ok a b ahi bhi (besti, bestj, bestsize) =
     (if besti + bestsize < ahi \<and> bestj + bestsize < bhi \<and> ok (b ! (bestj + bestsize))
         \<and> a ! (besti + bestsize) = b ! (bestj + bestsize)
      then extend_right ok a b ahi bhi (besti, bestj, bestsize + 1)
      else (besti, bestj, bestsize))"
  by pat_completeness auto

termination
  by (relation "measure (\<lambda>(ok, a, b, ahi, bhi, besti, bestj, bestsize). ahi - (besti + bestsize))")
     auto

declare extend_right.simps [simp del]

definition find_longest_match :: "string \<Rightarrow> string \<Rightarrow> (char \<rightharpoonup> nat list)
    \<Rightarrow> nat \<Rightarrow> nat \<Rightarrow> nat \<Rightarrow> nat \<Rightarrow> nat \<times> nat \<times> nat" where
  "find_longest_match a b b2j alo ahi blo bhi =
     (let best = snd (flm_outer a b2j blo bhi [alo..<ahi] (Map.empty, alo, blo, 0));
          best = extend_left (\<lambda>c. \<not> isbjunk c) a b alo blo best;
          best = extend_right (\<lambda>c. \<not> isbjunk c) a b ahi bhi best;
          best = extend_left isbjunk a b alo blo best;
          best = extend_right isbjunk a b ahi bhi best
      in best)"

subsection \<open>The block found lies inside the two ranges\<close>

text \<open>
  \<open>j2len_ok\<close>: every recorded match length ends inside \<open>b[blo:bhi]\<close> and is no longer
  than the part of either range read so far. \<open>best_ok\<close>: the best block lies inside
  \<open>a[alo:n]\<close> and \<open>b[blo:bhi]\<close>.
\<close>

definition j2len_ok :: "nat \<Rightarrow> nat \<Rightarrow> nat \<Rightarrow> nat \<Rightarrow> (nat \<rightharpoonup> nat) \<Rightarrow> bool" where
  "j2len_ok alo blo bhi n m =
     (\<forall>j l. m j = Some l \<longrightarrow> blo \<le> j \<and> j < bhi \<and> 1 \<le> l \<and> l \<le> j + 1 - blo \<and> l \<le> n - alo)"

definition best_ok :: "nat \<Rightarrow> nat \<Rightarrow> nat \<Rightarrow> nat \<Rightarrow> nat \<times> nat \<times> nat \<Rightarrow> bool" where
  "best_ok alo blo n bhi best = (case best of (besti, bestj, bestsize) \<Rightarrow>
     alo \<le> besti \<and> blo \<le> bestj \<and> besti + bestsize \<le> max alo n \<and> bestj + bestsize \<le> max blo bhi)"

lemma flm_inner_ok:
  assumes "j2len_ok alo blo bhi i j2len" "alo \<le> i"
    and "j2len_ok alo blo bhi (i + 1) (fst st)" "best_ok alo blo (i + 1) bhi (snd st)"
  shows "j2len_ok alo blo bhi (i + 1) (fst (flm_inner j2len i blo bhi js st))
       \<and> best_ok alo blo (i + 1) bhi (snd (flm_inner j2len i blo bhi js st))"
  using assms(3,4)
proof (induction js arbitrary: st)
  case Nil
  then show ?case by simp
next
  case (Cons j js)
  obtain m bi bj bs where st: "st = (m, bi, bj, bs)" by (cases st) auto
  show ?case
  proof (cases "j < blo")
    case True
    then show ?thesis using Cons st by simp
  next
    case nlo: False
    show ?thesis
    proof (cases "j \<ge> bhi")
      case True
      then show ?thesis using Cons.prems st nlo by simp
    next
      case False
      define k where "k = (if j = 0 then 0 else case j2len (j - 1) of None \<Rightarrow> 0 | Some l \<Rightarrow> l) + 1"
      have k1: "1 \<le> k" by (simp add: k_def)
      have kj: "k \<le> j + 1 - blo"
      proof (cases "j = 0")
        case True then show ?thesis using nlo by (simp add: k_def)
      next
        case j0: False
        show ?thesis
        proof (cases "j2len (j - 1)")
          case None
          then show ?thesis using nlo j0 by (simp add: k_def)
        next
          case (Some l)
          with assms(1) have "blo \<le> j - 1" "l \<le> (j - 1) + 1 - blo"
            by (auto simp: j2len_ok_def)
          then show ?thesis using Some j0 by (simp add: k_def)
        qed
      qed
      have ki: "k \<le> i + 1 - alo"
      proof (cases "j = 0")
        case True then show ?thesis using assms(2) by (simp add: k_def)
      next
        case j0: False
        show ?thesis
        proof (cases "j2len (j - 1)")
          case None
          then show ?thesis using assms(2) j0 by (simp add: k_def)
        next
          case (Some l)
          with assms(1) have "l \<le> i - alo"
            by (auto simp: j2len_ok_def)
          then show ?thesis using Some j0 assms(2) by (simp add: k_def)
        qed
      qed
      let ?st' = "(if k > bs then (m(j \<mapsto> k), i + 1 - k, j + 1 - k, k) else (m(j \<mapsto> k), bi, bj, bs))"
      have step: "flm_inner j2len i blo bhi (j # js) st = flm_inner j2len i blo bhi js ?st'"
        using st nlo False by (simp add: k_def Let_def)
      have m': "j2len_ok alo blo bhi (i + 1) (fst ?st')"
        using Cons.prems(1) st nlo False k1 kj ki by (auto simp: j2len_ok_def)
      have b': "best_ok alo blo (i + 1) bhi (snd ?st')"
        using Cons.prems(2) st nlo False k1 kj ki assms(2) by (auto simp: best_ok_def)
      show ?thesis unfolding step by (rule Cons.IH[OF m' b'])
    qed
  qed
qed

lemma flm_outer_ok:
  assumes "j2len_ok alo blo bhi i0 (fst st)" "best_ok alo blo i0 bhi (snd st)" "alo \<le> i0"
  shows "best_ok alo blo (max i0 ahi) bhi (snd (flm_outer a b2j blo bhi [i0..<ahi] st))"
  using assms
proof (induction "ahi - i0" arbitrary: i0 st)
  case 0
  then show ?case by (simp add: max_def)
next
  case (Suc n)
  then have lt: "i0 < ahi" by simp
  obtain m bi bj bs where st: "st = (m, bi, bj, bs)" by (cases st) auto
  let ?st' = "flm_inner m i0 blo bhi (case b2j (a ! i0) of None \<Rightarrow> [] | Some idxs \<Rightarrow> idxs)
          (Map.empty, bi, bj, bs)"
  have step: "flm_outer a b2j blo bhi [i0..<ahi] st = flm_outer a b2j blo bhi [Suc i0..<ahi] ?st'"
    using lt st by (simp add: upt_conv_Cons)
  have e: "j2len_ok alo blo bhi (i0 + 1) (fst (Map.empty, bi, bj, bs))"
    by (simp add: j2len_ok_def)
  have b: "best_ok alo blo (i0 + 1) bhi (snd (Map.empty, bi, bj, bs))"
    using Suc.prems(2) st by (auto simp: best_ok_def)
  have m: "j2len_ok alo blo bhi i0 m" using Suc.prems(1) st by simp
  note inner = flm_inner_ok[OF m Suc.prems(3) e b]
  have n: "n = ahi - Suc i0" using Suc.hyps(2) by simp
  have "best_ok alo blo (max (Suc i0) ahi) bhi (snd (flm_outer a b2j blo bhi [Suc i0..<ahi] ?st'))"
    using inner Suc.prems(3) by (intro Suc.hyps(1)[OF n]) auto
  then show ?case unfolding step using lt by (simp add: max_def)
qed

lemma extend_left_ok:
  "best_ok alo blo n bhi best \<Longrightarrow> best_ok alo blo n bhi (extend_left ok a b alo blo best)"
proof (induction ok a b alo blo best rule: extend_left.induct)
  case (1 ok a b alo blo besti bestj bestsize)
  show ?case
  proof (cases "besti > alo \<and> bestj > blo \<and> ok (b ! (bestj - 1)) \<and> a ! (besti - 1) = b ! (bestj - 1)")
    case True
    have "best_ok alo blo n bhi (besti - 1, bestj - 1, bestsize + 1)"
      using "1.prems" True by (auto simp: best_ok_def)
    from "1.IH"[OF True this] show ?thesis
      by (subst extend_left.simps) (use True in simp)
  next
    case False
    then show ?thesis using "1.prems" by (subst extend_left.simps) auto
  qed
qed

lemma extend_right_ok:
  "best_ok alo blo ahi bhi best \<Longrightarrow> best_ok alo blo ahi bhi (extend_right ok a b ahi bhi best)"
proof (induction ok a b ahi bhi best rule: extend_right.induct)
  case (1 ok a b ahi bhi besti bestj bestsize)
  show ?case
  proof (cases "besti + bestsize < ahi \<and> bestj + bestsize < bhi \<and> ok (b ! (bestj + bestsize))
         \<and> a ! (besti + bestsize) = b ! (bestj + bestsize)")
    case True
    have "best_ok alo blo ahi bhi (besti, bestj, bestsize + 1)"
      using "1.prems" True by (auto simp: best_ok_def)
    from "1.IH"[OF True this] show ?thesis
      by (subst extend_right.simps) (use True in simp)
  next
    case False
    then show ?thesis using "1.prems" by (subst extend_right.simps) auto
  qed
qed

lemma find_longest_match_ok:
  "best_ok alo blo ahi bhi (find_longest_match a b b2j alo ahi blo bhi)"
proof -
  have 0: "best_ok alo blo (max alo ahi) bhi
     (snd (flm_outer a b2j blo bhi [alo..<ahi] (Map.empty, alo, blo, 0)))"
    by (rule flm_outer_ok) (simp_all add: j2len_ok_def best_ok_def)
  have eq: "best_ok alo blo (max alo ahi) bhi = best_ok alo blo ahi bhi"
    by (auto simp: best_ok_def fun_eq_iff)
  show ?thesis
    unfolding find_longest_match_def Let_def
    by (intro extend_right_ok extend_left_ok) (use 0 eq in simp)
qed

subsection \<open>Matching blocks and the ratio\<close>

text \<open>
  \<open>get_matching_blocks\<close>. The work list \<open>queue\<close> is a stack: its head here is the last
  element of the Python list, the one \<open>queue.pop()\<close> takes.
\<close>

definition queue_size :: "(nat \<times> nat \<times> nat \<times> nat) list \<Rightarrow> nat" where
  "queue_size queue = sum_list (map (\<lambda>(alo, ahi, blo, bhi). 2 * (ahi - alo) + 1) queue)"

function gmb_loop :: "string \<Rightarrow> string \<Rightarrow> (char \<rightharpoonup> nat list)
    \<Rightarrow> (nat \<times> nat \<times> nat \<times> nat) list \<Rightarrow> (nat \<times> nat \<times> nat) list \<Rightarrow> (nat \<times> nat \<times> nat) list" where
  "gmb_loop a b b2j [] matching_blocks = matching_blocks"
| "gmb_loop a b b2j ((alo, ahi, blo, bhi) # queue) matching_blocks =
     (case find_longest_match a b b2j alo ahi blo bhi of (i, j, k) \<Rightarrow>
        if k \<noteq> 0
        then gmb_loop a b b2j
               ((if i + k < ahi \<and> j + k < bhi then [(i + k, ahi, j + k, bhi)] else [])
                @ (if alo < i \<and> blo < j then [(alo, i, blo, j)] else []) @ queue)
               (matching_blocks @ [(i, j, k)])
        else gmb_loop a b b2j queue matching_blocks)"
  by pat_completeness auto

termination
proof (relation "measure (\<lambda>(a, b, b2j, queue, mbs). queue_size queue)", goal_cases)
  case 1
  show ?case by simp
next
  case (2 a b b2j alo ahi blo bhi queue mbs i y j k)
  have "best_ok alo blo ahi bhi (i, j, k)"
    using find_longest_match_ok[of alo blo ahi bhi a b b2j] 2 by simp
  then show ?case using 2 by (auto simp: queue_size_def best_ok_def max_def split: if_splits)
next
  case 3
  then show ?case by (simp add: queue_size_def)
qed

text \<open>
  After the loop the blocks are sorted, adjacent blocks are merged, and the dummy block
  \<open>(la, lb, 0)\<close> is appended.
\<close>

fun collapse :: "(nat \<times> nat \<times> nat) list \<Rightarrow> nat \<times> nat \<times> nat \<Rightarrow> (nat \<times> nat \<times> nat) list
    \<Rightarrow> (nat \<times> nat \<times> nat) \<times> (nat \<times> nat \<times> nat) list" where
  "collapse [] cur non_adjacent = (cur, non_adjacent)"
| "collapse ((i2, j2, k2) # rest) (i1, j1, k1) non_adjacent =
     (if i1 + k1 = i2 \<and> j1 + k1 = j2 then collapse rest (i1, j1, k1 + k2) non_adjacent
      else collapse rest (i2, j2, k2)
             (if k1 \<noteq> 0 then non_adjacent @ [(i1, j1, k1)] else non_adjacent))"

definition get_matching_blocks :: "string \<Rightarrow> string \<Rightarrow> (nat \<times> nat \<times> nat) list" where
  "get_matching_blocks a b =
     (let la = length a; lb = length b;
          matching_blocks = sort (gmb_loop a b (chain_b b) [(0, la, 0, lb)] [])
      in case collapse matching_blocks (0, 0, 0) [] of ((i1, j1, k1), non_adjacent) \<Rightarrow>
           (if k1 \<noteq> 0 then non_adjacent @ [(i1, j1, k1)] else non_adjacent) @ [(la, lb, 0)])"

text \<open>\<open>_calculate_ratio\<close> and \<open>ratio\<close>.\<close>

definition calculate_ratio :: "nat \<Rightarrow> nat \<Rightarrow> rat" where
  "calculate_ratio matches len =
     (if len \<noteq> 0 then fdiv (fmul 2 (float_of_int (int matches))) (float_of_int (int len))
      else 1)"

definition block_size :: "nat \<times> nat \<times> nat \<Rightarrow> nat" where
  "block_size triple = snd (snd triple)"

definition ratio :: "string \<Rightarrow> string \<Rightarrow> rat" where
  "ratio a b =
     calculate_ratio (sum_list (map block_size (get_matching_blocks a b))) (length a + length b)"

section \<open>Cells, series and frames\<close>

text \<open>
  A cell of a frame is a string, an integer, the missing value \<open>NaN\<close> (what an empty
  spreadsheet cell is read as), or a value of another type (a float, a date, a
  boolean), kept as the text that \<open>str\<close> gives for it.
\<close>

datatype cell = Str string | IntV int | NaN | Obj string

definition py_str :: "cell \<Rightarrow> string" where
  "py_str v = (case v of Str s \<Rightarrow> s | IntV i \<Rightarrow> str_int i | NaN \<Rightarrow> ''nan'' | Obj s \<Rightarrow> s)"

definition isna :: "cell \<Rightarrow> bool" where
  "isna v = (v = NaN)"

datatype error = KeyError string | ValueError | ReError

text \<open>
  A frame has its column names and its rows, each row with its index label. A column is
  found by the first position of its name (the names of a frame read from a file are
  distinct). A row shorter than the list of columns reads as \<open>NaN\<close> where it ends, as
  when the frame was built.
\<close>

record dataframe =
  columns :: "string list"
  rows :: "(nat \<times> cell list) list"

definition empty_frame :: dataframe where
  "empty_frame = \<lparr>columns = [], rows = []\<rparr>"

fun column_pos :: "string list \<Rightarrow> string \<Rightarrow> nat option" where
  "column_pos [] column = None"
| "column_pos (c # cs) column =
     (if c = column then Some 0 else map_option Suc (column_pos cs column))"

definition cell_at :: "cell list \<Rightarrow> nat \<Rightarrow> cell" where
  "cell_at row p = (if p < length row then row ! p else NaN)"

text \<open>\<open>df[column]\<close> and, for a row of \<open>iterrows\<close>, \<open>row[column]\<close>.\<close>

definition getitem :: "dataframe \<Rightarrow> string \<Rightarrow> error + cell list" where
  "getitem df column =
     (case column_pos (columns df) column of
        None \<Rightarrow> Inl (KeyError column)
      | Some p \<Rightarrow> Inr (map (\<lambda>r. cell_at (snd r) p) (rows df)))"

definition row_getitem :: "string list \<Rightarrow> cell list \<Rightarrow> string \<Rightarrow> error + cell" where
  "row_getitem cols row column =
     (case column_pos cols column of
        None \<Rightarrow> Inl (KeyError column)
      | Some p \<Rightarrow> Inr (cell_at row p))"

text \<open>\<open>df[mask]\<close> keeps the rows whose entry of the boolean series \<open>bmask\<close> is true.\<close>

definition select :: "dataframe \<Rightarrow> bool list \<Rightarrow> dataframe" where
  "select df bmask = df\<lparr>rows := map fst (filter snd (zip (rows df) bmask))\<rparr>"

text \<open>\<open>df.loc[labels]\<close>: for each label in turn, the rows that carry it.\<close>

definition loc :: "dataframe \<Rightarrow> nat list \<Rightarrow> dataframe" where
  "loc df labels = df\<lparr>rows := concat (map (\<lambda>l. filter (\<lambda>r. fst r = l) (rows df)) labels)\<rparr>"

text \<open>
  \<open>df[column] = values\<close>: a \<open>ValueError\<close> unless there is one value for each row;
  an existing column is overwritten, a new one is appended.
\<close>

definition pad :: "nat \<Rightarrow> cell list \<Rightarrow> cell list" where
  "pad n row = take n row @ replicate (n - length row) NaN"

definition set_cell :: "string list \<Rightarrow> string \<Rightarrow> cell list \<Rightarrow> cell \<Rightarrow> cell list" where
  "set_cell cols column row v =
     (case column_pos cols column of
        None \<Rightarrow> pad (length cols) row @ [v]
      | Some p \<Rightarrow> (pad (length cols) row)[p := v])"

definition setitem :: "dataframe \<Rightarrow> string \<Rightarrow> cell list \<Rightarrow> error + dataframe" where
  "setitem df column vals =
     (if length vals \<noteq> length (rows df) then Inl ValueError
      else Inr \<lparr>columns = (if column \<in> set (columns df) then columns df else columns df @ [column]),
                rows = map (\<lambda>(r, v). (fst r, set_cell (columns df) column (snd r) v))
                         (zip (rows df) vals)\<rparr>)"

text \<open>
  \<open>df.sort_values(column, ascending=False)\<close> with the default \<open>kind\<close>. The sort itself
  belongs to the library; it is the parameter \<open>argsort\<close>, which returns the positions of
  the keys in the order of the result.
\<close>

definition sort_values :: "(cell list \<Rightarrow> nat list) \<Rightarrow> dataframe \<Rightarrow> string \<Rightarrow> error + dataframe" where
  "sort_values argsort df column =
     (case getitem df column of
        Inl e \<Rightarrow> Inl e
      | Inr keys \<Rightarrow> Inr (df\<lparr>rows := map (\<lambda>p. rows df ! p) (argsort keys)\<rparr>))"

text \<open>
  A series of strings, as \<open>astype(str)\<close> returns it: \<open>None\<close> stands for a missing
  entry. In pandas 1 and 2, the versions the program was written for, \<open>astype(str)\<close>
  applies \<open>str\<close> to every cell, the missing ones too, so its result has no missing
  entry.
\<close>

definition astype_str :: "cell list \<Rightarrow> string option list" where
  "astype_str col = map (\<lambda>v. Some (py_str v)) col"

definition str_lower :: "string option list \<Rightarrow> string option list" where
  "str_lower series = map (map_option py_lower) series"

definition series_eq :: "string option list \<Rightarrow> string \<Rightarrow> bool list" where
  "series_eq series s = map (\<lambda>v. v = Some s) series"

text \<open>
  \<open>series.str.contains(pat, na=na)\<close> reads \<open>pat\<close> as a regular expression
  (\<open>regex=True\<close> is the default). A pattern without any of the special characters
  \<open>. ^ $ * + ? { } [ ] \ | ( )\<close> matches where it occurs as a substring; for the other
  patterns the library's compiler is the parameter \<open>re_compile\<close>, \<open>None\<close> when it
  raises \<open>re.error\<close>.
\<close>

definition re_special :: "char \<Rightarrow> bool" where
  "re_special c = (c \<in> set [CHR ''.'', CHR ''^'', CHR ''$'', CHR ''*'', CHR ''+'', CHR ''?'',
     CHR ''{'', CHR ''}'', CHR ''['', CHR '']'', CHR 0x5C, CHR ''|'', CHR ''('', CHR '')''])"

definition str_contains :: "(string \<Rightarrow> (string \<Rightarrow> bool) option) \<Rightarrow> string \<Rightarrow> bool
    \<Rightarrow> string option list \<Rightarrow> error + bool list" where
  "str_contains re_compile pat na series =
     (case (if list_all (\<lambda>c. \<not> re_special c) pat then Some (py_in pat) else re_compile pat) of
        None \<Rightarrow> Inl ReError
      | Some search \<Rightarrow> Inr (map (\<lambda>v. case v of None \<Rightarrow> na | Some s \<Rightarrow> search s) series))"

section \<open>Frames as objects\<close>

text \<open>
  A frame is an object: a variable holds a reference to it, and an assignment to one of
  its columns changes the object in place. The heap maps references to frames;
  \<open>new_frame\<close> is what every pandas expression that builds a frame does, \<open>copy\<close>
  included. \<open>frame_at\<close> reads the frame a reference leads to (the references the
  program holds all lead to one; for any other it gives the empty frame), and
  \<open>returned\<close> the frame a search returns.
\<close>

type_synonym ref = nat

record heap =
  objs :: "ref \<rightharpoonup> dataframe"
  next_ref :: ref

definition new_frame :: "heap \<Rightarrow> dataframe \<Rightarrow> ref \<times> heap" where
  "new_frame h frame =
     (next_ref h, h\<lparr>objs := (objs h)(next_ref h \<mapsto> frame), next_ref := Suc (next_ref h)\<rparr>)"

definition frame_at :: "heap \<Rightarrow> ref \<Rightarrow> dataframe" where
  "frame_at h r = (case objs h r of Some frame \<Rightarrow> frame | None \<Rightarrow> empty_frame)"

definition copy :: "heap \<Rightarrow> ref \<Rightarrow> ref \<times> heap" where
  "copy h r = new_frame h (frame_at h r)"

definition returned :: "(error + ref) \<times> heap \<Rightarrow> error + dataframe" where
  "returned out = (case fst out of Inl e \<Rightarrow> Inl e | Inr r \<Rightarrow> Inr (frame_at (snd out) r))"

section \<open>The search functions of the tool\<close>

text \<open>
  \<open>exact_search\<close> and \<open>partial_search\<close>. \<open>ignore_case\<close> is the tool's check box,
  \<open>h\<close> the heap and \<open>df\<close> the reference \<open>self.df\<close>. \<open>self.df[mask]\<close> builds a
  frame and \<open>.copy()\<close> another.
\<close>

definition exact_search :: "bool \<Rightarrow> heap \<Rightarrow> ref \<Rightarrow> string \<Rightarrow> string \<Rightarrow> (error + ref) \<times> heap" where
  "exact_search ignore_case h df keyword column =
     (case getitem (frame_at h df) column of
        Inl e \<Rightarrow> (Inl e, h)
      | Inr col \<Rightarrow>
          let bmask = (if ignore_case then series_eq (str_lower (astype_str col)) (py_lower keyword)
                       else series_eq (astype_str col) keyword);
              (selected, h1) = new_frame h (select (frame_at h df) bmask);
              (result, h2) = copy h1 selected
          in (Inr result, h2))"

definition partial_search :: "(string \<Rightarrow> (string \<Rightarrow> bool) option) \<Rightarrow> bool \<Rightarrow> heap \<Rightarrow> ref
    \<Rightarrow> string \<Rightarrow> string \<Rightarrow> (error + ref) \<times> heap" where
  "partial_search re_compile ignore_case h df keyword column =
     (case getitem (frame_at h df) column of
        Inl e \<Rightarrow> (Inl e, h)
      | Inr col \<Rightarrow>
          (case (if ignore_case
                 then str_contains re_compile (py_lower keyword) False (str_lower (astype_str col))
                 else str_contains re_compile keyword False (astype_str col)) of
             Inl e \<Rightarrow> (Inl e, h)
           | Inr bmask \<Rightarrow>
               let (selected, h1) = new_frame h (select (frame_at h df) bmask);
                   (result, h2) = copy h1 selected
               in (Inr result, h2)))"

text \<open>
  \<open>fuzzy_search\<close>. Its inner function \<open>calculate_similarity\<close> scores one cell against
  the keyword; the loop over \<open>iterrows\<close> collects the scores and the index labels of the
  rows that reach the threshold.
\<close>

definition calculate_similarity :: "bool \<Rightarrow> string \<Rightarrow> cell \<Rightarrow> int" where
  "calculate_similarity ignore_case keyword text =
     (if isna text then 0
      else
        let text_processed = (if ignore_case then py_lower (py_str text) else py_str text);
            keyword_processed = (if ignore_case then py_lower keyword else keyword);
            similarity = ratio keyword_processed text_processed
        in py_int (fmul similarity (float_of_int 100)))"

fun fuzzy_loop :: "bool \<Rightarrow> string \<Rightarrow> string list \<Rightarrow> string \<Rightarrow> int \<Rightarrow> (nat \<times> cell list) list
    \<Rightarrow> int list \<times> nat list \<Rightarrow> error + int list \<times> nat list" where
  "fuzzy_loop ignore_case keyword cols column threshold [] acc = Inr acc"
| "fuzzy_loop ignore_case keyword cols column threshold ((idx, row) # rest)
       (similarities, matching_indices) =
     (case row_getitem cols row column of
        Inl e \<Rightarrow> Inl e
      | Inr text \<Rightarrow>
          let similarity = calculate_similarity ignore_case keyword text
          in if similarity \<ge> threshold
             then fuzzy_loop ignore_case keyword cols column threshold rest
                    (similarities @ [similarity], matching_indices @ [idx])
             else fuzzy_loop ignore_case keyword cols column threshold rest
                    (similarities, matching_indices))"

text \<open>
  The name of the score column. It is written in Japanese in the program; the bytes of its
  UTF-8 encoding stand for it here.
\<close>

definition similarity_column :: string where
  "similarity_column = [CHR 0xE9, CHR 0xA1, CHR 0x9E, CHR 0xE4, CHR 0xBC, CHR 0xBC,
                        CHR 0xE5, CHR 0xBA, CHR 0xA6]"

text \<open>
  After the loop: \<open>pd.DataFrame()\<close> when no row matched; otherwise
  \<open>self.df.loc[matching_indices].copy()\<close>, the assignment of the score column to that
  copy, in place, and \<open>sort_values\<close>, which builds the frame that is returned.
\<close>

definition fuzzy_search :: "(cell list \<Rightarrow> nat list) \<Rightarrow> bool \<Rightarrow> heap \<Rightarrow> ref \<Rightarrow> string \<Rightarrow> string
    \<Rightarrow> int \<Rightarrow> (error + ref) \<times> heap" where
  "fuzzy_search argsort ignore_case h df keyword column threshold =
     (case fuzzy_loop ignore_case keyword (columns (frame_at h df)) column threshold
             (rows (frame_at h df)) ([], []) of
        Inl e \<Rightarrow> (Inl e, h)
      | Inr (similarities, matching_indices) \<Rightarrow>
          if matching_indices = [] then (let (blank, h1) = new_frame h empty_frame in (Inr blank, h1))
          else
            let (located, h1) = new_frame h (loc (frame_at h df) matching_indices);
                (results, h2) = copy h1 located
            in case setitem (frame_at h2 results) similarity_column (map IntV similarities) of
                 Inl e \<Rightarrow> (Inl e, h2)
               | Inr assigned \<Rightarrow>
                   let h3 = h2\<lparr>objs := (objs h2)(results \<mapsto> assigned)\<rparr>
                   in case sort_values argsort (frame_at h3 results) similarity_column of
                        Inl e \<Rightarrow> (Inl e, h3)
                      | Inr sorted_frame \<Rightarrow>
                          let (result, h4) = new_frame h3 sorted_frame in (Inr result, h4))"

text \<open>\<open>advanced_fuzzy_search\<close>, the score of one pair of strings.\<close>

definition advanced_fuzzy_search :: "bool \<Rightarrow> string \<Rightarrow> string \<Rightarrow> int" where
  "advanced_fuzzy_search ignore_case keyword0 text0 =
     (if text0 = [] \<or> keyword0 = [] then 0
      else
        let text = (if ignore_case then py_lower text0 else text0);
            keyword = (if ignore_case then py_lower keyword0 else keyword0)
        in if keyword = text then 100
           else if py_in keyword text \<or> py_in text keyword then 85
           else
             let seq_ratio = ratio keyword text;
                 keyword_words = set (py_split keyword);
                 text_words = set (py_split text);
                 word_ratio =
                   (if keyword_words \<noteq> {} \<and> text_words \<noteq> {}
                    then int_truediv (int (card (keyword_words \<inter> text_words)))
                           (int (card (keyword_words \<union> text_words)))
                    else 0);
                 final_score = max (fmul seq_ratio (float_of_int 100))
                                   (fmul word_ratio (float_of_int 100))
             in py_int final_score)"

section \<open>The search command\<close>

text \<open>
  The fields of the tool that \<open>execute_search\<close> reads or writes, with the heap its
  frames live in. The widgets that only show text are left out; the dialogs it opens are
  its result.
\<close>

datatype status = Message string | Searching | SearchDone nat | SearchFailed

datatype dialog = WarnNoFile | WarnNoKeyword | WarnNoColumn | ShowError error

record tool =
  heap :: heap
  df :: "ref option"
  search_results :: "ref option"
  search_column :: string
  search_keyword :: string
  search_mode :: string
  similarity_threshold :: int
  ignore_case :: bool
  status_var :: status
  selected_tab :: nat

text \<open>
  The search chosen by \<open>search_mode\<close>. \<open>None\<close>: the mode is none of the three, and
  \<open>search_results\<close> is not assigned.
\<close>

definition run_search :: "(cell list \<Rightarrow> nat list) \<Rightarrow> (string \<Rightarrow> (string \<Rightarrow> bool) option) \<Rightarrow> tool
    \<Rightarrow> ref \<Rightarrow> string \<Rightarrow> string \<Rightarrow> string \<Rightarrow> (error + ref option) \<times> heap" where
  "run_search argsort re_compile self d keyword column mode =
     (if mode = ''exact''
      then map_prod (map_sum id Some) id
             (exact_search (ignore_case self) (heap self) d keyword column)
      else if mode = ''partial''
      then map_prod (map_sum id Some) id
             (partial_search re_compile (ignore_case self) (heap self) d keyword column)
      else if mode = ''fuzzy''
      then map_prod (map_sum id Some) id
             (fuzzy_search argsort (ignore_case self) (heap self) d keyword column
                (similarity_threshold self))
      else (Inr None, heap self))"

definition execute_search :: "(cell list \<Rightarrow> nat list) \<Rightarrow> (string \<Rightarrow> (string \<Rightarrow> bool) option) \<Rightarrow> tool
    \<Rightarrow> dialog option \<times> tool" where
  "execute_search argsort re_compile self =
     (case df self of
        None \<Rightarrow> (Some WarnNoFile, self)
      | Some d \<Rightarrow>
          if py_strip (search_keyword self) = [] then (Some WarnNoKeyword, self)
          else if search_column self = [] then (Some WarnNoColumn, self)
          else
            let self1 = self\<lparr>status_var := Searching\<rparr>;
                keyword = py_strip (search_keyword self1);
                column = search_column self1;
                mode = search_mode self1
            in case run_search argsort re_compile self1 d keyword column mode of
                 (Inl e, h) \<Rightarrow> (Some (ShowError e), self1\<lparr>heap := h, status_var := SearchFailed\<rparr>)
               | (Inr res, h) \<Rightarrow>
                   let self2 = (case res of None \<Rightarrow> self1\<lparr>heap := h\<rparr>
                                | Some r \<Rightarrow> self1\<lparr>heap := h, search_results := Some r\<rparr>);
                       result_count = (case search_results self2 of None \<Rightarrow> 0
                                       | Some r \<Rightarrow> length (rows (frame_at (heap self2) r)))
                   in (None, self2\<lparr>selected_tab := 1, status_var := SearchDone result_count\<rparr>))"

section \<open>Notions used in the statements\<close>

text \<open>
  The total length of the ranges of \<open>a\<close>, and of \<open>b\<close>, that wait in the work list, and
  the number of elements matched by a list of blocks.
\<close>

definition a_extent :: "(nat \<times> nat \<times> nat \<times> nat) list \<Rightarrow> nat" where
  "a_extent queue = sum_list (map (\<lambda>(alo, ahi, blo, bhi). ahi - alo) queue)"

definition b_extent :: "(nat \<times> nat \<times> nat \<times> nat) list \<Rightarrow> nat" where
  "b_extent queue = sum_list (map (\<lambda>(alo, ahi, blo, bhi). bhi - blo) queue)"

definition total_size :: "(nat \<times> nat \<times> nat) list \<Rightarrow> nat" where
  "total_size blocks = sum_list (map block_size blocks)"

text \<open>
  The specification's word score: the Jaccard index of the two sets of whitespace-separated
  tokens, 0 when either set is empty, as a float.
\<close>

definition word_score :: "string \<Rightarrow> string \<Rightarrow> rat" where
  "word_score k t =
     (let K = set (py_split k); T = set (py_split t)
      in if K = {} \<or> T = {} then 0
         else fl (of_nat (card (K \<inter> T)) / of_nat (card (K \<union> T))))"

text \<open>
  Example inputs: a compiler of regular expressions that rejects every pattern, and a frame
  with one column and one row, whose cell is missing.
\<close>

definition no_regex :: "string \<Rightarrow> (string \<Rightarrow> bool) option" where
  "no_regex pat = None"

definition one_missing :: dataframe where
  "one_missing = \<lparr>columns = [''name''], rows = [(0, [NaN])]\<rparr>"

text \<open>The heap that holds one frame, at the reference 0.\<close>

definition heap_of :: "dataframe \<Rightarrow> heap" where
  "heap_of frame = \<lparr>objs = [0 \<mapsto> frame], next_ref = 1\<rparr>"

text \<open>A request whose keyword is a space, a tab and a space.\<close>

definition blank_request :: tool where
  "blank_request = \<lparr>heap = heap_of one_missing, df = Some 0, search_results = None,
     search_column = ''name'',
     search_keyword = [CHR '' '', CHR 0x09, CHR '' ''], search_mode = ''fuzzy'',
     similarity_threshold = 80, ignore_case = True, status_var = Message ''ready'',
     selected_tab = 0\<rparr>"

text \<open>
  \<open>keeps h h'\<close>: every frame of the heap \<open>h\<close> is in \<open>h'\<close> as it was, under the
  same reference; \<open>h'\<close> may hold new frames.
\<close>

definition keeps :: "heap \<Rightarrow> heap \<Rightarrow> bool" where
  "keeps h h' = (next_ref h \<le> next_ref h' \<and> (\<forall>r. r < next_ref h \<longrightarrow> objs h' r = objs h r))"




text \<open>
  What the library promises of the sort behind \<open>sort_values(ascending=False)\<close> with the
  default \<open>kind\<close>: the result is a rearrangement of the rows with the keys in descending
  order. The default kind is not a stable sort, so nothing is promised about rows with
  equal keys.
\<close>

definition argsort_ok :: "(cell list \<Rightarrow> nat list) \<Rightarrow> bool" where
  "argsort_ok argsort =
     (\<forall>scores. mset (argsort (map IntV scores)) = mset [0..<length scores]
        \<and> sorted_wrt (\<lambda>a b. b \<le> a) (map (\<lambda>k. scores ! k) (argsort (map IntV scores))))"

text \<open>A sort that meets the promise and returns rows with equal keys in reverse order.\<close>

definition key_of :: "cell \<Rightarrow> int" where
  "key_of v = (case v of IntV i \<Rightarrow> i | _ \<Rightarrow> 0)"

definition reversing_argsort :: "cell list \<Rightarrow> nat list" where
  "reversing_argsort keys = rev (sort_key (\<lambda>k. key_of (keys ! k)) [0..<length keys])"

text \<open>
  The example of the specification, with a fourth row whose cell is missing: the keyword
  \<open>aple jpan\<close>, case ignored, threshold 60.
\<close>

definition companies :: dataframe where
  "companies = \<lparr>columns = [''name''],
     rows = [(0, [Str ''Apple Japan'']), (1, [Str ''apple japan'']),
             (2, [Str ''Orange Co'']), (3, [NaN])]\<rparr>"

text \<open>The request for this search, with the example loaded at the reference 0.\<close>

definition fuzzy_request :: tool where
  "fuzzy_request = \<lparr>heap = heap_of companies, df = Some 0, search_results = None,
     search_column = ''name'', search_keyword = ''aple jpan'', search_mode = ''fuzzy'',
     similarity_threshold = 60, ignore_case = True, status_var = Message ''ready'',
     selected_tab = 0\<rparr>"

section \<open>The matched elements are no more than either sequence has\<close>

lemma total_size_simps [simp]:
  "total_size [] = 0"
  "total_size (x # xs) = block_size x + total_size xs"
  "total_size (xs @ ys) = total_size xs + total_size ys"
  by (simp_all add: total_size_def)

lemma gmb_loop_total_a:
  "total_size (gmb_loop a b b2j queue mbs) \<le> total_size mbs + a_extent queue"
proof (induction a b b2j queue mbs rule: gmb_loop.induct)
  case (1 a b b2j mbs)
  then show ?case by (simp add: a_extent_def)
next
  case (2 a b b2j alo ahi blo bhi queue mbs)
  obtain i j k where f: "find_longest_match a b b2j alo ahi blo bhi = (i, j, k)"
    by (cases "find_longest_match a b b2j alo ahi blo bhi") auto
  have ok: "best_ok alo blo ahi bhi (i, j, k)"
    using find_longest_match_ok[of alo blo ahi bhi a b b2j] f by simp
  show ?case
  proof (cases "k = 0")
    case True
    then show ?thesis using 2(2)[OF f[symmetric] refl] f
      by (simp add: a_extent_def)
  next
    case False
    let ?q = "(if i + k < ahi \<and> j + k < bhi then [(i + k, ahi, j + k, bhi)] else [])
                @ (if alo < i \<and> blo < j then [(alo, i, blo, j)] else []) @ queue"
    have "a_extent ?q + k \<le> a_extent ((alo, ahi, blo, bhi) # queue)"
      using ok False by (auto simp: a_extent_def best_ok_def max_def block_size_def split: if_splits)
    moreover have "total_size (gmb_loop a b b2j ?q (mbs @ [(i, j, k)]))
        \<le> total_size (mbs @ [(i, j, k)]) + a_extent ?q"
      using 2(1)[OF f[symmetric] refl] False by simp
    ultimately show ?thesis using f False by (simp add: block_size_def)
  qed
qed

lemma gmb_loop_total_b:
  "total_size (gmb_loop a b b2j queue mbs) \<le> total_size mbs + b_extent queue"
proof (induction a b b2j queue mbs rule: gmb_loop.induct)
  case (1 a b b2j mbs)
  then show ?case by (simp add: b_extent_def)
next
  case (2 a b b2j alo ahi blo bhi queue mbs)
  obtain i j k where f: "find_longest_match a b b2j alo ahi blo bhi = (i, j, k)"
    by (cases "find_longest_match a b b2j alo ahi blo bhi") auto
  have ok: "best_ok alo blo ahi bhi (i, j, k)"
    using find_longest_match_ok[of alo blo ahi bhi a b b2j] f by simp
  show ?case
  proof (cases "k = 0")
    case True
    then show ?thesis using 2(2)[OF f[symmetric] refl] f
      by (simp add: b_extent_def)
  next
    case False
    let ?q = "(if i + k < ahi \<and> j + k < bhi then [(i + k, ahi, j + k, bhi)] else [])
                @ (if alo < i \<and> blo < j then [(alo, i, blo, j)] else []) @ queue"
    have "b_extent ?q + k \<le> b_extent ((alo, ahi, blo, bhi) # queue)"
      using ok False by (auto simp: b_extent_def best_ok_def max_def block_size_def split: if_splits)
    moreover have "total_size (gmb_loop a b b2j ?q (mbs @ [(i, j, k)]))
        \<le> total_size (mbs @ [(i, j, k)]) + b_extent ?q"
      using 2(1)[OF f[symmetric] refl] False by simp
    ultimately show ?thesis using f False by (simp add: block_size_def)
  qed
qed

lemma collapse_total:
  "collapse blocks cur acc = (cur', acc') \<Longrightarrow>
   total_size acc' + block_size cur' = total_size acc + block_size cur + total_size blocks"
proof (induction blocks cur acc rule: collapse.induct)
  case (1 cur non_adjacent)
  then show ?case by simp
next
  case (2 i2 j2 k2 rest i1 j1 k1 non_adjacent)
  then show ?case by (auto simp: block_size_def split: if_splits)
qed

lemma total_size_sort: "total_size (sort blocks) = total_size blocks"
proof -
  have "mset (map block_size (sort blocks)) = mset (map block_size blocks)"
    by simp
  then show ?thesis unfolding total_size_def by (metis sum_mset_sum_list)
qed

lemma matches_eq:
  "total_size (get_matching_blocks a b)
   = total_size (gmb_loop a b (chain_b b) [(0, length a, 0, length b)] [])"
proof -
  let ?mb = "sort (gmb_loop a b (chain_b b) [(0, length a, 0, length b)] [])"
  obtain i1 j1 k1 na where c: "collapse ?mb (0, 0, 0) [] = ((i1, j1, k1), na)"
    by (metis prod_cases3 surj_pair)
  from collapse_total[OF c] have "total_size na + k1 = total_size ?mb"
    by (simp add: block_size_def)
  then show ?thesis using c
    by (simp add: get_matching_blocks_def Let_def block_size_def total_size_sort)
qed

lemma matches_le:
  "total_size (get_matching_blocks a b) \<le> length a"
  "total_size (get_matching_blocks a b) \<le> length b"
  using gmb_loop_total_a[of a b "chain_b b" "[(0, length a, 0, length b)]" "[]"]
        gmb_loop_total_b[of a b "chain_b b" "[(0, length a, 0, length b)]" "[]"]
  by (simp_all add: matches_eq a_extent_def b_extent_def)

section \<open>Rounding is monotone and keeps the ratio in range\<close>

lemma pow2_less_iff: "(2::rat) powi a < 2 powi b \<longleftrightarrow> a < b"
proof
  assume l: "(2::rat) powi a < 2 powi b"
  show "a < b"
  proof (rule ccontr)
    assume "\<not> a < b"
    then have "b \<le> a" by simp
    then have "(2::rat) powi b \<le> 2 powi a" by (intro power_int_increasing) simp_all
    with l show False by simp
  qed
next
  assume "a < b"
  then show "(2::rat) powi a < 2 powi b" by (intro power_int_strict_increasing) simp_all
qed

lemma pow2_le_iff: "(2::rat) powi a \<le> 2 powi b \<longleftrightarrow> a \<le> b"
  using pow2_less_iff[of b a] by (auto simp: not_less[symmetric])

lemma pow2_pos: "0 < (2::rat) powi a"
  by simp

lemma pow2_Suc: "(2::rat) powi (a + 1) = 2 * 2 powi a"
  by (simp add: power_int_add)

lemma bitlen_pow2_bounds:
  assumes "0 < p"
  shows "(2::rat) powi (bitlen p - 1) \<le> of_int p" "of_int p < (2::rat) powi (bitlen p)"
proof -
  from bitlen_bounds[OF assms] have b: "2 ^ nat (bitlen p - 1) \<le> p" "p < 2 ^ nat (bitlen p)"
    by auto
  have ge1: "1 \<le> bitlen p" using assms by (auto simp: bitlen_alt_def)
  have "(of_int (2 ^ nat (bitlen p - 1)) :: rat) \<le> of_int p" using b(1) by (simp only: of_int_le_iff)
  then show "(2::rat) powi (bitlen p - 1) \<le> of_int p"
    using ge1 by (simp add: power_int_nonneg_exp)
  have "(of_int p :: rat) < of_int (2 ^ nat (bitlen p))" using b(2) by (simp only: of_int_less_iff)
  then show "of_int p < (2::rat) powi (bitlen p)"
    using ge1 by (simp add: power_int_nonneg_exp)
qed

lemma ilog2_bounds:
  assumes "0 < x"
  shows "2 powi (ilog2 x) \<le> x" "x < 2 powi (ilog2 x + 1)"
proof -
  obtain p q where pq: "quotient_of x = (p, q)" by (cases "quotient_of x") auto
  have q: "0 < q" using pq by (rule quotient_of_denom_pos)
  have x: "x = of_int p / of_int q" using pq by (rule quotient_of_div)
  have p: "0 < p" using assms q x by (simp add: zero_less_divide_iff)
  define d where "d = bitlen p - bitlen q"
  note bp = bitlen_pow2_bounds[OF p] and bq = bitlen_pow2_bounds[OF q]
  have qpos: "(0::rat) < of_int q" using q by simp
  have up: "x < 2 powi (d + 1)"
  proof -
    have "x < 2 powi (bitlen p) / of_int q"
      unfolding x using bp(2) qpos by (simp add: divide_strict_right_mono)
    also have "\<dots> \<le> 2 powi (bitlen p) / 2 powi (bitlen q - 1)"
      using bq(1) by (intro divide_left_mono mult_pos_pos qpos pow2_pos) simp_all
    also have "\<dots> = 2 powi (d + 1)"
      by (simp add: d_def power_int_diff[symmetric] algebra_simps)
    finally show ?thesis .
  qed
  have lo: "2 powi (d - 1) \<le> x"
  proof -
    have "(2::rat) powi (d - 1) = 2 powi (bitlen p - 1) / 2 powi (bitlen q)"
      by (simp add: d_def power_int_diff[symmetric] algebra_simps)
    also have "\<dots> \<le> of_int p / 2 powi (bitlen q)"
      using bp(1) by (simp add: divide_right_mono)
    also have "\<dots> \<le> of_int p / of_int q"
      using bq(2) p by (intro divide_left_mono mult_pos_pos qpos pow2_pos) simp_all
    finally show ?thesis by (simp add: x)
  qed
  have il: "ilog2 x = (if 2 powi d \<le> x then d else d - 1)"
    by (simp add: ilog2_def pq d_def Let_def)
  show "2 powi (ilog2 x) \<le> x" using lo by (simp add: il)
  show "x < 2 powi (ilog2 x + 1)" using up by (auto simp: il not_le)
qed

lemma ilog2_unique:
  assumes "2 powi e \<le> x" "x < 2 powi (e + 1)"
  shows "ilog2 x = e"
proof -
  have x: "0 < x" by (rule less_le_trans[OF pow2_pos assms(1)])
  note b = ilog2_bounds[OF x]
  have "(2::rat) powi e < 2 powi (ilog2 x + 1)" using assms(1) b(2) by simp
  then have 1: "e < ilog2 x + 1" by (simp only: pow2_less_iff)
  have "(2::rat) powi (ilog2 x) < 2 powi (e + 1)" using assms(2) b(1) by simp
  then have 2: "ilog2 x < e + 1" by (simp only: pow2_less_iff)
  from 1 2 show ?thesis by simp
qed

lemma ilog2_mono:
  assumes "0 < x" "x \<le> y"
  shows "ilog2 x \<le> ilog2 y"
proof -
  have y: "0 < y" using assms by simp
  have "(2::rat) powi (ilog2 x) < 2 powi (ilog2 y + 1)"
    using ilog2_bounds(1)[OF assms(1)] ilog2_bounds(2)[OF y] assms(2) by simp
  then have "ilog2 x < ilog2 y + 1" by (simp only: pow2_less_iff)
  then show ?thesis by simp
qed

lemma rhe_of_int: "round_half_even (of_int n) = n"
  by (simp add: round_half_even_def)

lemma rhe_bounds: "\<lfloor>x\<rfloor> \<le> round_half_even x" "round_half_even x \<le> \<lfloor>x\<rfloor> + 1"
  by (auto simp: round_half_even_def Let_def)

lemma rhe_mono:
  assumes "x \<le> y"
  shows "round_half_even x \<le> round_half_even y"
proof (cases "\<lfloor>x\<rfloor> < \<lfloor>y\<rfloor>")
  case True
  have "round_half_even x \<le> \<lfloor>x\<rfloor> + 1" by (rule rhe_bounds)
  also have "\<dots> \<le> \<lfloor>y\<rfloor>" using True by simp
  also have "\<dots> \<le> round_half_even y" by (rule rhe_bounds)
  finally show ?thesis .
next
  case False
  then have eq: "\<lfloor>x\<rfloor> = \<lfloor>y\<rfloor>" using floor_mono[OF assms] by simp
  have "x - of_int \<lfloor>y\<rfloor> \<le> y - of_int \<lfloor>y\<rfloor>" using assms by simp
  then show ?thesis
    by (auto simp: round_half_even_def Let_def eq)
qed

lemma fl_pos_eq:
  assumes "0 < x"
  shows "fl x = of_int (round_half_even (x / 2 powi (fexp x - 52))) * 2 powi (fexp x - 52)"
  using assms by (simp add: fl_def Let_def)

lemma fl_zero: "fl 0 = 0"
  by (simp add: fl_def)

lemma fl_nonneg:
  assumes "0 \<le> x"
  shows "0 \<le> fl x"
proof (cases "x = 0")
  case True
  then show ?thesis by (simp add: fl_zero)
next
  case False
  then have x: "0 < x" using assms by simp
  have "0 \<le> x / 2 powi (fexp x - 52)" using x by simp
  then have "0 \<le> \<lfloor>x / 2 powi (fexp x - 52)\<rfloor>" by simp
  then have "0 \<le> round_half_even (x / 2 powi (fexp x - 52))"
    using rhe_bounds(1)[of "x / 2 powi (fexp x - 52)"] by linarith
  then show ?thesis by (simp add: fl_pos_eq[OF x])
qed

lemma scaled_less:
  assumes "0 < x"
  shows "x / 2 powi (fexp x - 52) < 2 ^ 53"
proof -
  have "x < 2 powi (ilog2 x + 1)" by (rule ilog2_bounds[OF assms])
  also have "\<dots> \<le> 2 powi (fexp x + 1)" by (simp add: pow2_le_iff fexp_def)
  also have "\<dots> = 2 ^ 53 * 2 powi (fexp x - 52)"
    by (simp add: power_int_diff power_int_add)
  finally show ?thesis by (simp add: pos_divide_less_eq)
qed

lemma scaled_ge:
  assumes "0 < x" "- 1022 \<le> ilog2 x"
  shows "2 ^ 52 \<le> x / 2 powi (fexp x - 52)"
proof -
  have e: "fexp x = ilog2 x" using assms(2) by (simp add: fexp_def)
  have "(2::rat) ^ 52 * 2 powi (fexp x - 52) = 2 powi (ilog2 x)"
    by (simp add: e power_int_diff)
  also have "\<dots> \<le> x" by (rule ilog2_bounds[OF assms(1)])
  finally show ?thesis by (simp add: pos_le_divide_eq)
qed

lemma fl_upper:
  assumes "0 < x"
  shows "fl x \<le> 2 powi (fexp x + 1)"
proof -
  have "round_half_even (x / 2 powi (fexp x - 52)) \<le> round_half_even (of_int (2 ^ 53))"
    using scaled_less[OF assms] by (intro rhe_mono) simp
  then have "round_half_even (x / 2 powi (fexp x - 52)) \<le> 2 ^ 53"
    by (simp only: rhe_of_int)
  then have "(of_int (round_half_even (x / 2 powi (fexp x - 52))) :: rat) \<le> of_int (2 ^ 53)"
    by (simp only: of_int_le_iff)
  then have "fl x \<le> 2 ^ 53 * 2 powi (fexp x - 52)"
    unfolding fl_pos_eq[OF assms] by (intro mult_right_mono) simp_all
  also have "\<dots> = 2 powi (fexp x + 1)"
    by (simp add: power_int_diff power_int_add)
  finally show ?thesis .
qed

lemma fl_lower:
  assumes "0 < x" "- 1022 \<le> ilog2 x"
  shows "2 powi (ilog2 x) \<le> fl x"
proof -
  have e: "fexp x = ilog2 x" using assms(2) by (simp add: fexp_def)
  have "round_half_even (of_int (2 ^ 52)) \<le> round_half_even (x / 2 powi (fexp x - 52))"
    using scaled_ge[OF assms] by (intro rhe_mono) simp
  then have "2 ^ 52 \<le> round_half_even (x / 2 powi (fexp x - 52))"
    by (simp only: rhe_of_int)
  then have "(of_int (2 ^ 52) :: rat) \<le> of_int (round_half_even (x / 2 powi (fexp x - 52)))"
    by (simp only: of_int_le_iff)
  then have "2 ^ 52 * 2 powi (fexp x - 52) \<le> fl x"
    unfolding fl_pos_eq[OF assms(1)] by (intro mult_right_mono) simp_all
  moreover have "(2::rat) ^ 52 * 2 powi (fexp x - 52) = 2 powi (ilog2 x)"
    by (simp add: e power_int_diff)
  ultimately show ?thesis by simp
qed

lemma fl_mono_pos:
  assumes "0 < x" "x \<le> y"
  shows "fl x \<le> fl y"
proof -
  have y: "0 < y" using assms by simp
  have le: "fexp x \<le> fexp y" using ilog2_mono[OF assms] by (simp add: fexp_def)
  show ?thesis
  proof (cases "fexp x = fexp y")
    case True
    have "x / 2 powi (fexp y - 52) \<le> y / 2 powi (fexp y - 52)"
      using assms(2) by (simp add: divide_right_mono)
    then have "round_half_even (x / 2 powi (fexp y - 52)) \<le> round_half_even (y / 2 powi (fexp y - 52))"
      by (rule rhe_mono)
    then have "(of_int (round_half_even (x / 2 powi (fexp y - 52))) :: rat)
        \<le> of_int (round_half_even (y / 2 powi (fexp y - 52)))"
      by (simp only: of_int_le_iff)
    then show ?thesis
      unfolding fl_pos_eq[OF assms(1)] fl_pos_eq[OF y] True
      by (intro mult_right_mono) simp_all
  next
    case False
    then have lt: "fexp x < fexp y" using le by simp
    then have ey: "fexp y = ilog2 y" "- 1022 \<le> ilog2 y" by (auto simp: fexp_def max_def split: if_splits)
    have "fl x \<le> 2 powi (fexp x + 1)" by (rule fl_upper[OF assms(1)])
    also have "\<dots> \<le> 2 powi (ilog2 y)" using lt ey(1) by (simp add: pow2_le_iff)
    also have "\<dots> \<le> fl y" by (rule fl_lower[OF y ey(2)])
    finally show ?thesis .
  qed
qed

lemma fl_mono:
  assumes "0 \<le> x" "x \<le> y"
  shows "fl x \<le> fl y"
proof (cases "x = 0")
  case True
  then show ?thesis using fl_nonneg[of y] assms by (simp add: fl_zero)
next
  case False
  then show ?thesis using assms by (intro fl_mono_pos) simp_all
qed

lemma fl_scaled:
  assumes "0 < y" "fexp y = E" "y = of_int n * 2 powi (E - 52)"
  shows "fl y = y"
proof -
  have "y / 2 powi (fexp y - 52) = of_int n" using assms(2,3) by simp
  then show ?thesis unfolding fl_pos_eq[OF assms(1)] using assms(2,3) by (simp only: rhe_of_int)
qed

lemma fl_idem:
  assumes "0 \<le> x"
  shows "fl (fl x) = fl x"
proof (cases "x = 0")
  case True
  then show ?thesis by (simp add: fl_zero)
next
  case False
  then have x: "0 < x" using assms by simp
  define E where "E = fexp x"
  define n where "n = round_half_even (x / 2 powi (E - 52))"
  define y where "y = fl x"
  have y: "y = of_int n * 2 powi (E - 52)" by (simp add: y_def n_def E_def fl_pos_eq[OF x])
  have E: "- 1022 \<le> E" by (simp add: E_def fexp_def)
  have n0: "0 \<le> y" unfolding y_def by (rule fl_nonneg[OF assms])
  show ?thesis
  proof (cases "y = 0")
    case True
    then show ?thesis by (simp add: y_def[symmetric] fl_zero)
  next
    case y0: False
    then have ypos: "0 < y" using n0 by simp
    have up: "y \<le> 2 powi (E + 1)" unfolding y_def E_def by (rule fl_upper[OF x])
    have "fexp y = E \<or> (y = 2 powi (E + 1))"
    proof (cases "y = 2 powi (E + 1)")
      case True then show ?thesis by simp
    next
      case False
      then have lt: "y < 2 powi (E + 1)" using up by simp
      have "2 powi (ilog2 y) < (2::rat) powi (E + 1)"
        using ilog2_bounds(1)[OF ypos] lt by simp
      then have "ilog2 y < E + 1" by (simp only: pow2_less_iff)
      then have a: "ilog2 y \<le> E" by simp
      have "E \<le> fexp y"
      proof (cases "E = - 1022")
        case True then show ?thesis by (simp add: fexp_def)
      next
        case False
        then have ex: "E = ilog2 x" "- 1022 \<le> ilog2 x"
          using E by (auto simp: E_def fexp_def max_def split: if_splits)
        have "2 powi E \<le> y" unfolding y_def ex(1) by (rule fl_lower[OF x ex(2)])
        then have "2 powi E < (2::rat) powi (ilog2 y + 1)"
          using ilog2_bounds(2)[OF ypos] by simp
        then have "E < ilog2 y + 1" by (simp only: pow2_less_iff)
        then have "E \<le> ilog2 y" by simp
        then show ?thesis by (simp add: fexp_def)
      qed
      then show ?thesis using a E by (simp add: fexp_def max_def split: if_splits)
    qed
    then show ?thesis
    proof
      assume "fexp y = E"
      from fl_scaled[OF ypos this y] show ?thesis by (simp add: y_def)
    next
      assume p: "y = 2 powi (E + 1)"
      have "ilog2 y = E + 1"
        by (rule ilog2_unique) (simp_all add: p pow2_less_iff)
      then have e: "fexp y = E + 1" using E by (simp add: fexp_def)
      have "y = of_int (2 ^ 52) * 2 powi (E + 1 - 52)"
        by (simp add: p power_int_diff power_int_add)
      from fl_scaled[OF ypos e this] show ?thesis by (simp add: y_def)
    qed
  qed
qed

lemma fl_double:
  assumes "0 < x" "- 1022 \<le> ilog2 x"
  shows "fl (2 * x) = 2 * fl x"
proof -
  have x2: "0 < 2 * x" using assms(1) by simp
  have "ilog2 (2 * x) = ilog2 x + 1"
    using ilog2_bounds[OF assms(1)] by (intro ilog2_unique) (simp_all add: power_int_add)
  then have e: "fexp (2 * x) = fexp x + 1" using assms(2) by (simp add: fexp_def)
  have u: "(2::rat) powi (fexp x + 1 - 52) = 2 * 2 powi (fexp x - 52)"
    by (simp add: power_int_diff power_int_add)
  show ?thesis
    unfolding fl_pos_eq[OF x2] fl_pos_eq[OF assms(1)] e u by simp
qed

lemma ilog2_ge_one:
  assumes "1 \<le> x"
  shows "0 \<le> ilog2 x"
proof -
  have x: "0 < x" using assms by simp
  have "(2::rat) powi 0 < 2 powi (ilog2 x + 1)"
    using ilog2_bounds(2)[OF x] assms by simp
  then have "0 < ilog2 x + 1" by (simp only: pow2_less_iff)
  then show ?thesis by simp
qed

lemma fl_one: "fl 1 = 1"
proof -
  have e: "fexp 1 = 0"
    using ilog2_unique[of 0 1] by (simp add: fexp_def)
  from fl_scaled[of 1 0 "2 ^ 52"] e show ?thesis by (simp add: power_int_minus)
qed

lemma fl_hundred: "fl 100 = 100"
proof -
  have e: "fexp 100 = 6"
    using ilog2_unique[of 6 100] by (simp add: fexp_def)
  have "(100::rat) = of_int (25 * 2 ^ 48) * 2 powi (6 - 52)"
    by (simp add: power_int_minus)
  from fl_scaled[OF _ e this] show ?thesis by simp
qed

lemma float_of_int_double:
  "fl (2 * fl (of_nat m)) = fl (of_nat (2 * m))"
proof (cases "m = 0")
  case True
  then show ?thesis by (simp add: fl_zero)
next
  case False
  then have m: "(1::rat) \<le> of_nat m" by simp
  then have pos: "(0::rat) < of_nat m" by simp
  have "- 1022 \<le> ilog2 (of_nat m)" using ilog2_ge_one[OF m] by simp
  from fl_double[OF pos this] have "2 * fl (of_nat m) = fl (of_nat (2 * m))" by simp
  then show ?thesis using fl_idem[of "of_nat (2 * m)"] by simp
qed

lemma calculate_ratio_bounds:
  assumes "2 * m \<le> n"
  shows "0 \<le> calculate_ratio m n" "calculate_ratio m n \<le> 1"
proof -
  let ?num = "fl (2 * fl (of_nat m))" and ?den = "fl (of_nat n)"
  have num: "?num = fl (of_nat (2 * m))" by (rule float_of_int_double)
  have n0: "0 \<le> ?num" unfolding num by (intro fl_nonneg) simp
  have le: "?num \<le> ?den" unfolding num using assms by (intro fl_mono) simp_all
  have d0: "0 \<le> ?den" by (intro fl_nonneg) simp
  have q0: "0 \<le> ?num / ?den" using n0 d0 by simp
  have q1: "?num / ?den \<le> 1"
  proof (cases "?den = 0")
    case True
    then show ?thesis by simp
  next
    case False
    then have "0 < ?den" using d0 by simp
    then show ?thesis using le by (simp add: divide_le_eq_1)
  qed
  have r: "calculate_ratio m n = (if n \<noteq> 0 then fl (?num / ?den) else 1)"
    by (simp add: calculate_ratio_def fdiv_def fmul_def float_of_int_def)
  show "0 \<le> calculate_ratio m n" using fl_nonneg[OF q0] by (simp add: r)
  show "calculate_ratio m n \<le> 1" using fl_mono[OF q0 q1] by (simp add: r fl_one)
qed

section \<open>The basic similarity score\<close>

lemma ratio_bounds: "0 \<le> ratio a b" "ratio a b \<le> 1"
proof -
  have "2 * total_size (get_matching_blocks a b) \<le> length a + length b"
    using matches_le[of a b] by simp
  then have "2 * sum_list (map block_size (get_matching_blocks a b)) \<le> length a + length b"
    by (simp add: total_size_def)
  from calculate_ratio_bounds[OF this] show "0 \<le> ratio a b" "ratio a b \<le> 1"
    by (simp_all add: ratio_def)
qed

lemma calculate_ratio_zero: "n \<noteq> 0 \<Longrightarrow> calculate_ratio 0 n = 0"
  by (simp add: calculate_ratio_def fdiv_def fmul_def float_of_int_def fl_zero)

lemma ratio_empty_left:
  assumes "b \<noteq> []"
  shows "ratio [] b = 0"
proof -
  have "total_size (get_matching_blocks [] b) = 0" using matches_le(1)[of "[]" b] by simp
  then have "sum_list (map block_size (get_matching_blocks [] b)) = 0"
    by (simp only: total_size_def)
  then show ?thesis using assms by (simp only: ratio_def) (simp add: calculate_ratio_zero)
qed

lemma ratio_empty_right:
  assumes "a \<noteq> []"
  shows "ratio a [] = 0"
proof -
  have "total_size (get_matching_blocks a []) = 0" using matches_le(2)[of a "[]"] by simp
  then have "sum_list (map block_size (get_matching_blocks a [])) = 0"
    by (simp only: total_size_def)
  then show ?thesis using assms by (simp only: ratio_def) (simp add: calculate_ratio_zero)
qed

lemma ratio_empty_both: "ratio [] [] = 1"
  by (simp add: ratio_def calculate_ratio_def)

lemma percent_bounds:
  assumes "0 \<le> r" "r \<le> 1"
  shows "0 \<le> py_int (fmul r (float_of_int 100))" "py_int (fmul r (float_of_int 100)) \<le> 100"
proof -
  have h: "float_of_int 100 = 100" using fl_hundred by (simp add: float_of_int_def)
  have a: "0 \<le> r * 100" "r * 100 \<le> 100" using assms by simp_all
  have lo: "0 \<le> fl (r * 100)" by (rule fl_nonneg[OF a(1)])
  have hi: "fl (r * 100) \<le> 100" using fl_mono[OF a] by (simp add: fl_hundred)
  show "0 \<le> py_int (fmul r (float_of_int 100))" using lo by (simp add: py_int_def fmul_def h)
  have "\<lfloor>fl (r * 100)\<rfloor> \<le> \<lfloor>100::rat\<rfloor>" by (rule floor_mono[OF hi])
  then show "py_int (fmul r (float_of_int 100)) \<le> 100" using lo by (simp add: py_int_def fmul_def h)
qed

lemma percent_zero: "py_int (fmul 0 (float_of_int 100)) = 0"
  by (simp add: py_int_def fmul_def fl_zero)

lemma percent_one: "py_int (fmul 1 (float_of_int 100)) = 100"
  using fl_hundred by (simp add: py_int_def fmul_def float_of_int_def)

lemma py_lower_Nil_iff: "py_lower s = [] \<longleftrightarrow> s = []"
  by (simp add: py_lower_def)

text \<open>
  Claim C3, as the code has it. The score of \<open>calculate_similarity\<close> is an integer from 0
  to 100 for every keyword and every cell. It is 0 when exactly one of the two strings is
  empty. When both are empty it is 100, not 0: the library's ratio of two empty sequences
  is 1.0.
\<close>

theorem calculate_similarity_range:
  "0 \<le> calculate_similarity ic a text \<and> calculate_similarity ic a text \<le> 100
   \<and> calculate_similarity ic [] (Str (c # cs)) = 0
   \<and> calculate_similarity ic (c # cs) (Str []) = 0
   \<and> calculate_similarity ic [] (Str []) = 100"
proof -
  have r: "0 \<le> calculate_similarity ic a text \<and> calculate_similarity ic a text \<le> 100"
    using percent_bounds[OF ratio_bounds] by (simp add: calculate_similarity_def Let_def)
  have l: "calculate_similarity ic [] (Str (c # cs)) = 0"
    by (simp add: calculate_similarity_def isna_def py_str_def py_lower_def ratio_empty_left
        percent_zero)
  have rr: "calculate_similarity ic (c # cs) (Str []) = 0"
    by (simp add: calculate_similarity_def isna_def py_str_def py_lower_def ratio_empty_right
        percent_zero)
  have b: "calculate_similarity ic [] (Str []) = 100"
    by (simp add: calculate_similarity_def isna_def py_str_def py_lower_def ratio_empty_both
        percent_one)
  from r l rr b show ?thesis by blast
qed

text \<open>
  Counterexample to claim C3 as stated: the empty keyword against the empty string scores
  100.
\<close>

theorem calculate_similarity_empty_both: "calculate_similarity True [] (Str []) = 100"
  by (simp add: calculate_similarity_def isna_def py_str_def py_lower_def ratio_empty_both
      percent_one)

subsection \<open>Strings without a common character\<close>

lemma b2j_fold_None:
  "m c = None \<Longrightarrow> c \<notin> set b \<Longrightarrow> foldl b2j_add m (enumerate n b) c = None"
proof (induction b arbitrary: m n)
  case Nil
  then show ?case by simp
next
  case (Cons x xs)
  have "b2j_add m (n, x) c = None" using Cons.prems by (auto simp: b2j_add_def)
  then show ?case using Cons by simp
qed

lemma chain_b_None: "c \<notin> set b \<Longrightarrow> chain_b b c = None"
  using b2j_fold_None[of Map.empty c b 0] by (simp add: chain_b_def Let_def)

lemma flm_outer_no_positions:
  "\<forall>i \<in> set is. b2j (a ! i) = None
   \<Longrightarrow> snd (flm_outer a b2j blo bhi is st) = snd st"
proof (induction "is" arbitrary: st)
  case Nil
  then show ?case by simp
next
  case (Cons i "is")
  obtain m bi bj bs where st: "st = (m, bi, bj, bs)" by (cases st) auto
  have n: "b2j (a ! i) = None" using Cons.prems by simp
  have r: "\<forall>i \<in> set is. b2j (a ! i) = None" using Cons.prems by simp
  have step: "flm_outer a b2j blo bhi (i # is) st
      = flm_outer a b2j blo bhi is (Map.empty, bi, bj, bs)"
    unfolding st by (simp add: n)
  show ?case unfolding step using Cons.IH[OF r, of "(Map.empty, bi, bj, bs)"] st by simp
qed

lemma extend_left_stay: "extend_left ok a b alo blo (alo, blo, 0) = (alo, blo, 0)"
  by (subst extend_left.simps) simp

lemma extend_right_stay:
  assumes "\<forall>x \<in> set a. x \<notin> set b" "ahi \<le> length a" "bhi \<le> length b"
  shows "extend_right ok a b ahi bhi (alo, blo, 0) = (alo, blo, 0)"
proof (cases "alo < ahi \<and> blo < bhi")
  case True
  then have m: "a ! alo \<in> set a" "b ! blo \<in> set b" using assms(2,3) by simp_all
  have "a ! alo \<notin> set b" using assms(1) m(1) by (rule bspec)
  then have "a ! alo \<noteq> b ! blo" using m(2) by (rule_tac notI) simp
  then show ?thesis by (subst extend_right.simps) simp
next
  case False
  then show ?thesis by (subst extend_right.simps) auto
qed

lemma find_longest_match_disjoint:
  assumes "\<forall>x \<in> set a. x \<notin> set b" "ahi \<le> length a" "bhi \<le> length b"
  shows "find_longest_match a b (chain_b b) alo ahi blo bhi = (alo, blo, 0)"
proof -
  have "\<forall>i \<in> set [alo..<ahi]. chain_b b (a ! i) = None"
  proof
    fix i assume "i \<in> set [alo..<ahi]"
    then have "i < length a" using assms(2) by simp
    then have "a ! i \<in> set a" by simp
    with assms(1) have "a ! i \<notin> set b" by (rule bspec)
    then show "chain_b b (a ! i) = None" by (rule chain_b_None)
  qed
  from flm_outer_no_positions[OF this, of blo bhi "(Map.empty, alo, blo, 0)"]
  have 1: "snd (flm_outer a (chain_b b) blo bhi [alo..<ahi] (Map.empty, alo, blo, 0)) = (alo, blo, 0)"
    by simp
  show ?thesis
    unfolding find_longest_match_def Let_def 1 extend_left_stay extend_right_stay[OF assms]
    by (rule refl)
qed

lemma matches_disjoint:
  assumes "set a \<inter> set b = {}"
  shows "total_size (get_matching_blocks a b) = 0"
proof -
  have d: "\<forall>x \<in> set a. x \<notin> set b" using assms by (simp add: disjoint_iff)
  have "find_longest_match a b (chain_b b) 0 (length a) 0 (length b) = (0, 0, 0)"
    by (rule find_longest_match_disjoint[OF d]) simp_all
  then have "gmb_loop a b (chain_b b) [(0, length a, 0, length b)] [] = []"
    by simp
  then show ?thesis by (simp add: matches_eq)
qed

lemma ratio_disjoint:
  assumes "set a \<inter> set b = {}"
  shows "ratio a b = (if a = [] \<and> b = [] then 1 else 0)"
proof -
  have "sum_list (map block_size (get_matching_blocks a b)) = 0"
    using matches_disjoint[OF assms] by (simp only: total_size_def)
  then have r: "ratio a b = calculate_ratio 0 (length a + length b)"
    by (simp only: ratio_def)
  show ?thesis
  proof (cases "a = [] \<and> b = []")
    case True
    then show ?thesis by (simp add: ratio_empty_both)
  next
    case False
    then have "length a + length b \<noteq> 0" by simp
    from calculate_ratio_zero[OF this] False show ?thesis by (simp only: r) simp
  qed
qed

text \<open>
  Claim C4, as the code has it. The score is the same in both orders when the two
  strings, after case normalization, have no character in common; this covers every pair
  with an empty string. For strings that share characters the two orders can differ.
\<close>

theorem calculate_similarity_symmetric_disjoint:
  assumes "set (normalize ic a) \<inter> set (normalize ic b) = {}"
  shows "calculate_similarity ic a (Str b) = calculate_similarity ic b (Str a)"
proof -
  have d: "set (normalize ic b) \<inter> set (normalize ic a) = {}"
    using assms by (simp add: Int_commute)
  have "ratio (normalize ic a) (normalize ic b) = ratio (normalize ic b) (normalize ic a)"
    unfolding ratio_disjoint[OF assms] ratio_disjoint[OF d] by auto
  then show ?thesis
    by (cases ic) (simp_all add: calculate_similarity_def isna_def py_str_def normalize_def Let_def)
qed

theorem calculate_similarity_symmetric_disjoint_witness:
  "set (normalize True ''Abc'') \<inter> set (normalize True ''xyz'') = {}
   \<and> calculate_similarity True ''Abc'' (Str ''xyz'') = calculate_similarity True ''xyz'' (Str ''Abc'')"
proof -
  have h: "set (normalize True ''Abc'') \<inter> set (normalize True ''xyz'') = {}"
    by code_simp
  from calculate_similarity_symmetric_disjoint[OF h] h show ?thesis by simp
qed

text \<open>
  Counterexample to claim C4 as stated: \<open>tide\<close> against \<open>diet\<close> scores 25, and
  \<open>diet\<close> against \<open>tide\<close> scores 50.
\<close>

theorem calculate_similarity_not_symmetric:
  "calculate_similarity True ''tide'' (Str ''diet'') = 25
   \<and> calculate_similarity True ''diet'' (Str ''tide'') = 50"
  by code_simp

section \<open>The composite score\<close>

lemma starts_with_iff: "starts_with s p \<longleftrightarrow> (\<exists>post. s = p @ post)"
  by (induction s p rule: starts_with.induct) auto

lemma py_in_iff: "py_in sub s \<longleftrightarrow> (\<exists>pre post. s = pre @ sub @ post)"
proof (induction s)
  case Nil
  then show ?case by simp
next
  case (Cons c cs)
  show ?case
  proof
    assume "py_in sub (c # cs)"
    then consider "starts_with (c # cs) sub" | "py_in sub cs" by auto
    then show "\<exists>pre post. c # cs = pre @ sub @ post"
    proof cases
      case 1
      then obtain post where "c # cs = sub @ post" by (auto simp: starts_with_iff)
      then have "c # cs = [] @ sub @ post" by simp
      then show ?thesis by blast
    next
      case 2
      then obtain pre post where "cs = pre @ sub @ post" using Cons.IH by auto
      then have "c # cs = (c # pre) @ sub @ post" by simp
      then show ?thesis by blast
    qed
  next
    assume "\<exists>pre post. c # cs = pre @ sub @ post"
    then obtain pre post where e: "c # cs = pre @ sub @ post" by auto
    show "py_in sub (c # cs)"
    proof (cases pre)
      case Nil
      then have "starts_with (c # cs) sub" using e by (auto simp: starts_with_iff)
      then show ?thesis by simp
    next
      case (Cons x pre')
      then have "cs = pre' @ sub @ post" using e by simp
      then have "py_in sub cs" using Cons.IH by blast
      then show ?thesis by simp
    qed
  qed
qed

lemma percent_nonneg: "0 \<le> r \<Longrightarrow> 0 \<le> fmul r (float_of_int 100)"
  using fl_hundred fl_nonneg[of "r * 100"] by (simp add: fmul_def float_of_int_def)

lemma fmul_hundred: "fmul r (float_of_int 100) = fl (r * 100)"
  using fl_hundred by (simp add: fmul_def float_of_int_def)

lemma word_score_eq:
  "(if set (py_split k) \<noteq> {} \<and> set (py_split t) \<noteq> {}
    then int_truediv (int (card (set (py_split k) \<inter> set (py_split t))))
                     (int (card (set (py_split k) \<union> set (py_split t))))
    else 0) = word_score k t"
  by (simp add: word_score_def int_truediv_def Let_def)

lemma word_score_nonneg: "0 \<le> word_score k t"
  by (simp add: word_score_def Let_def fl_nonneg)

text \<open>
  Claim C6, as the code has it. \<open>advanced_fuzzy_search\<close> returns 0 when the keyword or
  the text is empty. For a non-empty keyword and text, after case normalization: 100 when
  the two strings are equal; otherwise 85 when one occurs in the other as a contiguous
  substring; otherwise the floor of the larger of the sequence ratio and the word score,
  each multiplied by 100 in float arithmetic.
\<close>

theorem advanced_fuzzy_search_cases:
  "advanced_fuzzy_search ic [] t = 0 \<and> advanced_fuzzy_search ic k [] = 0 \<and>
   advanced_fuzzy_search ic (c # k) (d # t) =
     (let keyword = normalize ic (c # k); text = normalize ic (d # t)
      in if keyword = text then 100
         else if (\<exists>pre post. text = pre @ keyword @ post)
               \<or> (\<exists>pre post. keyword = pre @ text @ post) then 85
         else \<lfloor>max (fl (ratio keyword text * 100)) (fl (word_score keyword text * 100))\<rfloor>)"
proof -
  have e1: "advanced_fuzzy_search ic [] t = 0" by (simp add: advanced_fuzzy_search_def)
  have e2: "advanced_fuzzy_search ic k [] = 0" by (simp add: advanced_fuzzy_search_def)
  define kw where "kw = normalize ic (c # k)"
  define tx where "tx = normalize ic (d # t)"
  have m: "0 \<le> max (fl (ratio kw tx * 100)) (fl (word_score kw tx * 100))"
    using fl_nonneg[of "ratio kw tx * 100"] ratio_bounds(1)[of kw tx]
    by (simp add: max_def)
  have a: "advanced_fuzzy_search ic (c # k) (d # t) =
     (if kw = tx then 100
      else if py_in kw tx \<or> py_in tx kw then 85
      else py_int (max (fl (ratio kw tx * 100)) (fl (word_score kw tx * 100))))"
    unfolding advanced_fuzzy_search_def Let_def word_score_eq fmul_hundred
      kw_def tx_def normalize_def by simp
  have "advanced_fuzzy_search ic (c # k) (d # t) =
     (if kw = tx then 100
      else if (\<exists>pre post. tx = pre @ kw @ post)
            \<or> (\<exists>pre post. kw = pre @ tx @ post) then 85
      else \<lfloor>max (fl (ratio kw tx * 100)) (fl (word_score kw tx * 100))\<rfloor>)"
    unfolding a py_in_iff using m by (simp add: py_int_def)
  then show ?thesis using e1 e2 by (simp add: kw_def tx_def Let_def)
qed

text \<open>
  Counterexample to claim C6 as stated: two empty strings are equal and score 0, not 100;
  the empty keyword occurs in every text and scores 0, not 85.
\<close>

theorem advanced_fuzzy_search_empty:
  "advanced_fuzzy_search True [] [] = 0 \<and> advanced_fuzzy_search True [] ''abc'' = 0"
  by (simp add: advanced_fuzzy_search_def)

section \<open>Exact and partial search\<close>

lemma select_map: "map fst (filter snd (zip xs (map f xs))) = filter f xs"
  by (induction xs) auto

lemma getitem_Some:
  "column_pos (columns frame) column = Some p
   \<Longrightarrow> getitem frame column = Inr (map (\<lambda>r. cell_at (snd r) p) (rows frame))"
  by (simp add: getitem_def)

lemma getitem_None:
  "column_pos (columns frame) column = None \<Longrightarrow> getitem frame column = Inl (KeyError column)"
  by (simp add: getitem_def)

lemma exact_mask:
  "(if ic then series_eq (str_lower (astype_str (map g xs))) (py_lower keyword)
    else series_eq (astype_str (map g xs)) keyword)
   = map (\<lambda>r. normalize ic (py_str (g r)) = normalize ic keyword) xs"
  by (simp add: series_eq_def str_lower_def astype_str_def normalize_def)

lemma frame_at_heap_of: "frame_at (heap_of frame) 0 = frame"
  by (simp add: frame_at_def heap_of_def)

lemma frame_at_new: "frame_at (snd (new_frame h frame)) (fst (new_frame h frame)) = frame"
  by (simp add: new_frame_def frame_at_def)

lemma returned_copy_of_new:
  "(case new_frame h frame of (selected, h1) \<Rightarrow>
      case copy h1 selected of (result, h2) \<Rightarrow> returned (Inr result, h2)) = Inr frame"
  by (simp add: new_frame_def copy_def frame_at_def returned_def)

lemma returned_error: "returned (Inl e, h) = Inl e"
  by (simp add: returned_def)

lemma exact_search_found:
  assumes "column_pos (columns (frame_at h d)) column = Some p"
  shows "returned (exact_search ic h d keyword column) =
     Inr ((frame_at h d)\<lparr>rows := filter (\<lambda>r. normalize ic (py_str (cell_at (snd r) p))
                                  = normalize ic keyword) (rows (frame_at h d))\<rparr>)"
proof -
  define bmask where "bmask =
    (if ic then series_eq (str_lower (astype_str (map (\<lambda>r. cell_at (snd r) p)
                  (rows (frame_at h d))))) (py_lower keyword)
     else series_eq (astype_str (map (\<lambda>r. cell_at (snd r) p) (rows (frame_at h d)))) keyword)"
  have m: "bmask = map (\<lambda>r. normalize ic (py_str (cell_at (snd r) p)) = normalize ic keyword)
      (rows (frame_at h d))"
    unfolding bmask_def by (rule exact_mask)
  have "returned (exact_search ic h d keyword column) = Inr (select (frame_at h d) bmask)"
    unfolding exact_search_def getitem_Some[OF assms]
    using returned_copy_of_new by (simp add: Let_def split_def bmask_def)
  then show ?thesis by (simp add: m select_def select_map)
qed


lemma str_contains_literal:
  "list_all (\<lambda>c. \<not> re_special c) pat \<Longrightarrow>
   str_contains re_compile pat na series
   = Inr (map (\<lambda>v. case v of None \<Rightarrow> na | Some s \<Rightarrow> py_in pat s) series)"
  by (simp add: str_contains_def)

lemma partial_search_literal:
  assumes "list_all (\<lambda>c. \<not> re_special c) (normalize ic keyword)"
  shows "returned (partial_search re_compile ic h d keyword column) =
     (case column_pos (columns (frame_at h d)) column of
        None \<Rightarrow> Inl (KeyError column)
      | Some p \<Rightarrow>
          Inr ((frame_at h d)\<lparr>rows := filter (\<lambda>r. py_in (normalize ic keyword)
                          (normalize ic (py_str (cell_at (snd r) p)))) (rows (frame_at h d))\<rparr>))"
proof (cases "column_pos (columns (frame_at h d)) column")
  case None
  then show ?thesis by (simp add: partial_search_def getitem_None returned_error)
next
  case (Some p)
  show ?thesis
  proof (cases ic)
    case True
    then have l: "list_all (\<lambda>c. \<not> re_special c) (py_lower keyword)"
      using assms by (simp add: normalize_def)
    show ?thesis
      unfolding partial_search_def getitem_Some[OF Some]
      using returned_copy_of_new
      by (simp add: True Some str_contains_literal[OF l] str_lower_def astype_str_def
          normalize_def select_def select_map comp_def Let_def split_def)
  next
    case False
    then have l: "list_all (\<lambda>c. \<not> re_special c) keyword"
      using assms by (simp add: normalize_def)
    show ?thesis
      unfolding partial_search_def getitem_Some[OF Some]
      using returned_copy_of_new
      by (simp add: False Some str_contains_literal[OF l] astype_str_def
          normalize_def select_def select_map comp_def Let_def split_def)
  qed
qed

lemma normalize_nan: "normalize ic ''nan'' = ''nan''"
  by (simp add: normalize_def py_lower_def lower_char_def)

lemma in_nan_literal:
  assumes "py_in k ''nan''"
  shows "list_all (\<lambda>c. \<not> re_special c) k"
proof -
  from assms obtain pre post where "''nan'' = pre @ k @ post" by (auto simp: py_in_iff)
  then have "set (pre @ k @ post) = set ''nan''" by simp
  then have "set k \<subseteq> set ''nan''" by auto
  moreover have "\<not> re_special CHR ''n''" "\<not> re_special CHR ''a''"
    by (simp_all add: re_special_def)
  ultimately show ?thesis by (auto simp: list_all_iff)
qed

text \<open>
  Claim C10. A missing cell is converted to the string \<open>nan\<close> before it is compared.
  So a row whose searched cell is missing is returned by \<open>exact_search\<close> for the
  keyword \<open>nan\<close>, and by \<open>partial_search\<close> for every keyword that, normalized, is a
  substring of \<open>nan\<close>.
\<close>

theorem nan_cell_matches:
  assumes "column_pos (columns (frame_at h d)) column = Some p"
    and "(i, r) \<in> set (rows (frame_at h d))" and "cell_at r p = NaN"
    and "py_in (normalize ic keyword) ''nan''"
  shows "(\<exists>res. returned (exact_search ic h d ''nan'' column) = Inr res
                 \<and> (i, r) \<in> set (rows res))
       \<and> (\<exists>res. returned (partial_search re_compile ic h d keyword column) = Inr res
                 \<and> (i, r) \<in> set (rows res))"
proof -
  have s: "py_str (cell_at r p) = ''nan''" using assms(3) by (simp add: py_str_def)
  have "(i, r) \<in> set (filter (\<lambda>r. normalize ic (py_str (cell_at (snd r) p))
       = normalize ic ''nan'') (rows (frame_at h d)))"
    using assms(2) s by simp
  then have 1: "\<exists>res. returned (exact_search ic h d ''nan'' column) = Inr res
      \<and> (i, r) \<in> set (rows res)"
    unfolding exact_search_found[OF assms(1)] by simp
  have "(i, r) \<in> set (filter (\<lambda>r. py_in (normalize ic keyword)
       (normalize ic (py_str (cell_at (snd r) p)))) (rows (frame_at h d)))"
    using assms(2,4) s by (simp add: normalize_nan)
  then have 2: "\<exists>res. returned (partial_search re_compile ic h d keyword column) = Inr res
      \<and> (i, r) \<in> set (rows res)"
    unfolding partial_search_literal[OF in_nan_literal[OF assms(4)]] assms(1) by simp
  from 1 2 show ?thesis by (rule conjI)
qed

text \<open>Claim C10 at the frame with one missing cell, for the keyword \<open>AN\<close>.\<close>

theorem nan_cell_matches_witness:
  "column_pos (columns (frame_at (heap_of one_missing) 0)) ''name'' = Some 0
   \<and> (0, [NaN]) \<in> set (rows (frame_at (heap_of one_missing) 0))
   \<and> cell_at [NaN] 0 = NaN
   \<and> py_in (normalize True ''AN'') ''nan''
   \<and> (\<exists>res. returned (exact_search True (heap_of one_missing) 0 ''nan'' ''name'') = Inr res
              \<and> (0, [NaN]) \<in> set (rows res))
   \<and> (\<exists>res. returned (partial_search no_regex True (heap_of one_missing) 0 ''AN'' ''name'')
                = Inr res
              \<and> (0, [NaN]) \<in> set (rows res))"
proof -
  have 1: "column_pos (columns (frame_at (heap_of one_missing) 0)) ''name'' = Some 0"
    by (simp add: one_missing_def frame_at_heap_of)
  have 2: "(0, [NaN]) \<in> set (rows (frame_at (heap_of one_missing) 0))"
    by (simp add: one_missing_def frame_at_heap_of)
  have 3: "cell_at [NaN] 0 = NaN" by (simp add: cell_at_def)
  have 4: "py_in (normalize True ''AN'') ''nan''"
    by code_simp
  note t = nan_cell_matches[OF 1 2 3 4, of no_regex]
  from 1 2 3 4 t[THEN conjunct1] t[THEN conjunct2] show ?thesis by (intro conjI)
qed

text \<open>
  Claim C2 says that \<open>partial_search\<close> never returns a row whose searched cell is
  missing. The code passes \<open>na=False\<close> to \<open>str.contains\<close>, but only after
  \<open>astype(str)\<close> has turned the missing cell into the string \<open>nan\<close>: the row is
  returned for the keywords \<open>nan\<close> and \<open>a\<close>, with either case setting.
\<close>

theorem partial_search_returns_missing_cell:
  "returned (partial_search re_compile True (heap_of one_missing) 0 ''nan'' ''name'')
     = Inr one_missing
   \<and> returned (partial_search re_compile False (heap_of one_missing) 0 ''a'' ''name'')
     = Inr one_missing"
proof -
  have l: "list_all (\<lambda>c. \<not> re_special c) (normalize ic ''nan'')"
          "list_all (\<lambda>c. \<not> re_special c) (normalize ic ''a'')" for ic
    by (simp_all add: normalize_def py_lower_def lower_char_def re_special_def)
  have n: "normalize ic ''nan'' = ''nan''" "normalize ic ''a'' = ''a''" for ic
    by (simp_all add: normalize_def py_lower_def lower_char_def)
  show ?thesis
    unfolding partial_search_literal[OF l(1)] partial_search_literal[OF l(2)] frame_at_heap_of
    by (simp add: one_missing_def cell_at_def py_str_def n)
qed

section \<open>The search command: what it rejects and what it leaves alone\<close>

lemma keeps_refl: "keeps h h"
  by (simp add: keeps_def)

lemma keeps_trans: "keeps h h' \<Longrightarrow> keeps h' h'' \<Longrightarrow> keeps h h''"
  by (auto simp: keeps_def)

lemma new_frame_keeps: "keeps h (snd (new_frame h frame))"
  by (simp add: keeps_def new_frame_def)

lemma copy_keeps: "keeps h (snd (copy h r))"
  by (simp add: copy_def new_frame_keeps)

lemma built_and_copied_keeps:
  "keeps h (snd (case new_frame h frame of (selected, h1) \<Rightarrow>
                   case copy h1 selected of (result, h2) \<Rightarrow> (Inr result, h2)))"
  by (simp add: keeps_def new_frame_def copy_def)

lemma exact_search_keeps: "keeps h (snd (exact_search ic h d keyword column))"
  using built_and_copied_keeps
  by (auto simp: exact_search_def Let_def keeps_refl split: sum.split)

lemma partial_search_keeps: "keeps h (snd (partial_search re_compile ic h d keyword column))"
  using built_and_copied_keeps
  by (auto simp: partial_search_def Let_def keeps_refl split: sum.split)

lemma fuzzy_search_keeps:
  "keeps h (snd (fuzzy_search argsort ic h d keyword column threshold))"
proof (cases "fuzzy_loop ic keyword (columns (frame_at h d)) column threshold
    (rows (frame_at h d)) ([], [])")
  case (Inl e)
  then show ?thesis by (simp add: fuzzy_search_def keeps_refl)
next
  case (Inr found)
  obtain similarities matching_indices where f: "found = (similarities, matching_indices)"
    by (cases found) auto
  show ?thesis
  proof (cases "matching_indices = []")
    case True
    then show ?thesis
      by (simp add: fuzzy_search_def Inr f keeps_def new_frame_def)
  next
    case False
    then show ?thesis
      by (simp add: fuzzy_search_def Inr f keeps_def new_frame_def copy_def Let_def
          split: sum.split)
  qed
qed

lemma run_search_keeps:
  "keeps (heap self) (snd (run_search argsort re_compile self d keyword column mode))"
  by (simp add: run_search_def exact_search_keeps partial_search_keeps fuzzy_search_keeps
      keeps_refl)

lemma execute_search_heap:
  "keeps (heap self) (heap (snd (execute_search argsort re_compile self)))"
proof (cases "df self")
  case None
  then show ?thesis by (simp add: execute_search_def keeps_refl)
next
  case (Some d)
  define self1 where "self1 = self\<lparr>status_var := Searching\<rparr>"
  obtain res h' where r: "run_search argsort re_compile self1 d (py_strip (search_keyword self1))
      (search_column self1) (search_mode self1) = (res, h')"
    by (cases "run_search argsort re_compile self1 d (py_strip (search_keyword self1))
      (search_column self1) (search_mode self1)") auto
  have k: "keeps (heap self) h'"
    using run_search_keeps[of self1 argsort re_compile d "py_strip (search_keyword self1)"
        "search_column self1" "search_mode self1"] r by (simp add: self1_def)
  show ?thesis
    using Some r k
    by (auto simp: execute_search_def Let_def self1_def keeps_refl split: option.split sum.split)
qed

lemma execute_search_df: "df (snd (execute_search argsort re_compile self)) = df self"
  by (simp add: execute_search_def Let_def split: option.split sum.split prod.split)

text \<open>
  Claim C9. A search in any of the three modes leaves every frame that existed before it
  as it was, every cell and the order of the rows, the loaded frame among them: the
  frames a search builds are new objects, and the score column of the fuzzy search is
  assigned to one of those. The same holds of \<open>execute_search\<close>, whatever the mode and
  the outcome, and the tool still refers to the same loaded frame afterwards.
\<close>

theorem search_keeps_source:
  "keeps h (snd (exact_search ic h d keyword column))
   \<and> keeps h (snd (partial_search re_compile ic h d keyword column))
   \<and> keeps h (snd (fuzzy_search argsort ic h d keyword column threshold))
   \<and> keeps (heap self) (heap (snd (execute_search argsort re_compile self)))
   \<and> df (snd (execute_search argsort re_compile self)) = df self"
proof (intro conjI)
  show "keeps h (snd (exact_search ic h d keyword column))"
    by (rule exact_search_keeps)
  show "keeps h (snd (partial_search re_compile ic h d keyword column))"
    by (rule partial_search_keeps)
  show "keeps h (snd (fuzzy_search argsort ic h d keyword column threshold))"
    by (rule fuzzy_search_keeps)
  show "keeps (heap self) (heap (snd (execute_search argsort re_compile self)))"
    by (rule execute_search_heap)
  show "df (snd (execute_search argsort re_compile self)) = df self"
    by (rule execute_search_df)
qed

text \<open>
  Claim C9 at the example, loaded at the reference 0: after each of the three searches,
  and after the search command, the reference 0 still leads to the example as it was.
\<close>

theorem search_keeps_source_witness:
  "0 < next_ref (heap_of companies)
   \<and> objs (snd (exact_search True (heap_of companies) 0 ''aple jpan'' ''name'')) 0
       = Some companies
   \<and> objs (snd (partial_search no_regex True (heap_of companies) 0 ''aple jpan'' ''name'')) 0
       = Some companies
   \<and> objs (snd (fuzzy_search reversing_argsort True (heap_of companies) 0 ''aple jpan''
                  ''name'' 60)) 0
       = Some companies
   \<and> objs (heap (snd (execute_search reversing_argsort no_regex fuzzy_request))) 0
       = Some companies
   \<and> df (snd (execute_search reversing_argsort no_regex fuzzy_request)) = Some 0"
proof -
  have n: "0 < next_ref (heap_of companies)" by (simp add: heap_of_def)
  have o: "objs (heap_of companies) 0 = Some companies" by (simp add: heap_of_def)
  have f: "heap fuzzy_request = heap_of companies" "df fuzzy_request = Some 0"
    by (simp_all add: fuzzy_request_def)
  note t = search_keeps_source[where h = "heap_of companies" and ic = True and d = 0
      and keyword = "''aple jpan''" and column = "''name''" and re_compile = no_regex
      and argsort = reversing_argsort and threshold = 60 and self = fuzzy_request,
      unfolded keeps_def f]
  from n o t show ?thesis
    by simp
qed

text \<open>
  Claim C8. When the keyword is empty or consists of whitespace only, \<open>execute_search\<close>
  opens a warning and returns with the tool unchanged: no search function is called, no
  row is read, no frame is built and \<open>search_results\<close> is not assigned. The warning asks
  for a keyword, or for a file when none has been loaded.
\<close>

theorem execute_search_blank_keyword:
  assumes "py_strip (search_keyword self) = []"
  shows "execute_search argsort re_compile self
         = (Some (if df self = None then WarnNoFile else WarnNoKeyword), self)"
  using assms by (simp add: execute_search_def split: option.split)

theorem execute_search_blank_keyword_witness:
  "py_strip (search_keyword blank_request) = []
   \<and> execute_search (\<lambda>keys. []) no_regex blank_request = (Some WarnNoKeyword, blank_request)"
proof -
  have h: "py_strip (search_keyword blank_request) = []"
    by (simp add: blank_request_def py_strip_def py_isspace_def)
  from execute_search_blank_keyword[OF h, of "\<lambda>keys. []" no_regex] h show ?thesis
    by (simp add: blank_request_def)
qed

section \<open>Fuzzy search\<close>














lemma argsort_perm:
  assumes "argsort_ok argsort"
  shows "mset (map (\<lambda>k. xs ! k) (argsort (map IntV (map f xs)))) = mset xs"
proof -
  have "mset (argsort (map IntV (map f xs))) = mset [0..<length xs]"
    using assms[unfolded argsort_ok_def, rule_format, of "map f xs"] by simp
  then have "mset (map (\<lambda>k. xs ! k) (argsort (map IntV (map f xs))))
      = mset (map (\<lambda>k. xs ! k) [0..<length xs])"
    by (simp only: mset_map)
  then show ?thesis by (simp only: map_nth)
qed












end
